theory Spec2Isabelle
  imports Main "HOL-Library.List_Lexorder"
begin

section \<open>Python strings\<close>

text \<open>
  A Python 3 \<^verbatim>\<open>str\<close> is a sequence of Unicode code points. The extracted text is Urdu as
  well as English, so a character is modelled as its code point, a natural number, and a
  string as the list of its code points. \<open>U ''abc''\<close> writes an ASCII literal.
\<close>

type_synonym ustring = "nat list"

abbreviation U :: "string \<Rightarrow> ustring" where
  "U s \<equiv> map of_char s"

definition DOT :: nat where "DOT = 46"
definition SLASH :: nat where "SLASH = 47"
definition BACKSLASH :: nat where "BACKSLASH = 92"
definition SPACE :: nat where "SPACE = 32"
definition NBSP :: nat where "NBSP = 160"

text \<open>
  \<^verbatim>\<open>str.isspace\<close> of one character, which decides what \<^verbatim>\<open>str.strip()\<close> removes: the code
  points CPython's \<^verbatim>\<open>_PyUnicode_IsWhitespace\<close> accepts. U+00A0 is one of them.
\<close>

definition py_isspace :: "nat \<Rightarrow> bool" where
  "py_isspace c \<longleftrightarrow>
     (9 \<le> c \<and> c \<le> 13) \<or> (28 \<le> c \<and> c \<le> 32) \<or> c = 133 \<or> c = 160 \<or> c = 5760 \<or>
     (8192 \<le> c \<and> c \<le> 8202) \<or> c = 8232 \<or> c = 8233 \<or> c = 8239 \<or> c = 8287 \<or> c = 12288"

definition lstrip_where :: "(nat \<Rightarrow> bool) \<Rightarrow> ustring \<Rightarrow> ustring" where
  "lstrip_where P s = dropWhile P s"

definition rstrip_where :: "(nat \<Rightarrow> bool) \<Rightarrow> ustring \<Rightarrow> ustring" where
  "rstrip_where P s = rev (dropWhile P (rev s))"

text \<open>\<^verbatim>\<open>s.strip()\<close>: leading and trailing whitespace removed.\<close>

definition py_strip :: "ustring \<Rightarrow> ustring" where
  "py_strip s = rstrip_where py_isspace (lstrip_where py_isspace s)"

text \<open>\<^verbatim>\<open>s.strip(chars)\<close> and \<^verbatim>\<open>s.rstrip(chars)\<close>: the characters of \<open>chars\<close> removed at the ends.\<close>

definition py_strip_chars :: "ustring \<Rightarrow> ustring \<Rightarrow> ustring" where
  "py_strip_chars chars s =
     rstrip_where (\<lambda>c. c \<in> set chars) (lstrip_where (\<lambda>c. c \<in> set chars) s)"

definition py_rstrip_chars :: "ustring \<Rightarrow> ustring \<Rightarrow> ustring" where
  "py_rstrip_chars chars s = rstrip_where (\<lambda>c. c \<in> set chars) s"

text \<open>
  \<^verbatim>\<open>s.replace(old, new)\<close> where \<open>old\<close> and \<open>new\<close> are one character each, which is every call
  of the scripts.
\<close>

definition py_replace :: "nat \<Rightarrow> nat \<Rightarrow> ustring \<Rightarrow> ustring" where
  "py_replace old new s = map (\<lambda>c. if c = old then new else c) s"

text \<open>
  \<^verbatim>\<open>s.split(sep, maxsplit)\<close> with a one-character separator: at most \<open>maxsplit\<close> cuts, from
  the left; the last part keeps the separators that remain.
\<close>

fun py_split :: "nat \<Rightarrow> nat \<Rightarrow> ustring \<Rightarrow> ustring list" where
  "py_split sep 0 s = [s]"
| "py_split sep (Suc n) s =
     (case dropWhile (\<lambda>c. c \<noteq> sep) s of
        [] \<Rightarrow> [s]
      | _ # r \<Rightarrow> takeWhile (\<lambda>c. c \<noteq> sep) s # py_split sep n r)"

text \<open>\<^verbatim>\<open>sep.join(parts)\<close> with a one-character separator.\<close>

fun py_join :: "nat \<Rightarrow> ustring list \<Rightarrow> ustring" where
  "py_join sep [] = []"
| "py_join sep [x] = x"
| "py_join sep (x # y # ys) = x @ sep # py_join sep (y # ys)"

definition endswith :: "ustring \<Rightarrow> ustring \<Rightarrow> bool" where
  "endswith s suffix \<longleftrightarrow> length suffix \<le> length s \<and> drop (length s - length suffix) s = suffix"

section \<open>Paths\<close>

text \<open>
  \<^verbatim>\<open>os.path\<close> is \<^verbatim>\<open>posixpath\<close>: the separator is the slash. \<^verbatim>\<open>basename\<close> is what follows
  the last slash. \<^verbatim>\<open>splitext\<close> cuts at the last dot of the last component, unless only dots
  come before it in that component (leading dots are not an extension).
\<close>

definition basename :: "ustring \<Rightarrow> ustring" where
  "basename p = rev (takeWhile (\<lambda>c. c \<noteq> SLASH) (rev p))"

definition splitext :: "ustring \<Rightarrow> ustring \<times> ustring" where
  "splitext p =
     (let name = basename p;
          head = take (length p - length name) p;
          ext = rev (takeWhile (\<lambda>c. c \<noteq> DOT) (rev name));
          pre = take (length name - length ext - 1) name
      in if DOT \<in> set name \<and> (\<exists>c \<in> set pre. c \<noteq> DOT)
         then (head @ pre, DOT # ext) else (p, []))"

text \<open>\<^verbatim>\<open>os.path.join(a, b)\<close> of two components.\<close>

definition path_join :: "ustring \<Rightarrow> ustring \<Rightarrow> ustring" where
  "path_join a b =
     (if b \<noteq> [] \<and> hd b = SLASH then b
      else if a = [] \<or> last a = SLASH then a @ b
      else a @ SLASH # b)"

section \<open>Section number and name of a file\<close>

text \<open>
  \<^verbatim>\<open>parse_section_parts\<close>, the same in the three scripts: the stem is cut at its first two
  dots.
\<close>

definition parse_section_parts :: "ustring \<Rightarrow> ustring \<times> ustring" where
  "parse_section_parts filename =
     (let base = fst (splitext (basename filename));
          parts = py_split DOT 2 base
      in if length parts \<ge> 2
         then (py_join DOT (take 2 parts), if length parts = 3 then parts ! 2 else [])
         else ([], base))"

section \<open>The document tree\<close>

text \<open>
  \<^verbatim>\<open>BeautifulSoup(html_text, "lxml")\<close> turns markup into a tree, and the scripts read only the
  tree. A node is a tag, a \<^verbatim>\<open>NavigableString\<close> (text that \<^verbatim>\<open>get_text\<close> returns) or another
  string (a comment, a declaration, the text of a script or style element: \<^verbatim>\<open>get_text\<close>
  skips it). A tag holds its attributes as the tree builder stores them: \<^verbatim>\<open>class\<close> is the
  list of its tokens (\<open>None\<close> when the attribute is absent), every other attribute is a
  string, under its name as the parser writes it (lower case). A tag name is lower case.
\<close>

datatype node =
    Tag (tag_name: ustring) (tag_class: "ustring list option")
        (tag_attrs: "(ustring \<times> ustring) list") (contents: "node list")
  | NavigableString ustring
  | OtherString ustring

text \<open>
  An element in its place: the node and its ancestors, the parent first. A selector looks
  at the ancestors of a candidate up to the root of the document, also above the element
  \<^verbatim>\<open>select\<close> was called on.
\<close>

type_synonym element = "node list \<times> node"

fun descendants :: "node list \<Rightarrow> node \<Rightarrow> element list" where
  "descendants anc (Tag n c a ch) =
     concat (map (\<lambda>k. (Tag n c a ch # anc, k) # descendants (Tag n c a ch # anc) k) ch)"
| "descendants anc (NavigableString s) = []"
| "descendants anc (OtherString s) = []"

definition descendants_of :: "element \<Rightarrow> element list" where
  "descendants_of e = descendants (fst e) (snd e)"

fun is_tag :: "ustring \<Rightarrow> node \<Rightarrow> bool" where
  "is_tag nm (Tag n c a ch) = (n = nm)"
| "is_tag nm (NavigableString s) = False"
| "is_tag nm (OtherString s) = False"

text \<open>\<^verbatim>\<open>tag.get(key)\<close> for a string attribute, and \<^verbatim>\<open>tag.get("class") or []\<close>.\<close>

fun tag_get :: "node \<Rightarrow> ustring \<Rightarrow> ustring option" where
  "tag_get (Tag n c a ch) key = map_of a key"
| "tag_get (NavigableString s) key = None"
| "tag_get (OtherString s) key = None"

fun class_list :: "node \<Rightarrow> ustring list" where
  "class_list (Tag n c a ch) = (case c of None \<Rightarrow> [] | Some cs \<Rightarrow> cs)"
| "class_list (NavigableString s) = []"
| "class_list (OtherString s) = []"

definition has_class :: "ustring \<Rightarrow> node \<Rightarrow> bool" where
  "has_class c n \<longleftrightarrow> c \<in> set (class_list n)"

definition has_id :: "ustring \<Rightarrow> node \<Rightarrow> bool" where
  "has_id i n \<longleftrightarrow> tag_get n (U ''id'') = Some i"

text \<open>
  The selectors of the scripts. \<^verbatim>\<open>#i .c\<close> and \<^verbatim>\<open>.c t\<close> ask for some ancestor, \<^verbatim>\<open>ul > li\<close>
  for the parent. \<^verbatim>\<open>select\<close> returns the matching descendants in document order,
  \<^verbatim>\<open>select_one\<close> and \<^verbatim>\<open>find\<close> the first one or \<^verbatim>\<open>None\<close>.
\<close>

definition select_id_class :: "ustring \<Rightarrow> ustring \<Rightarrow> element \<Rightarrow> element list" where
  "select_id_class i c e =
     filter (\<lambda>d. has_class c (snd d) \<and> list_ex (has_id i) (fst d)) (descendants_of e)"

definition select_class_tag :: "ustring \<Rightarrow> ustring \<Rightarrow> element \<Rightarrow> element list" where
  "select_class_tag c t e =
     filter (\<lambda>d. is_tag t (snd d) \<and> list_ex (has_class c) (fst d)) (descendants_of e)"

definition select_child :: "ustring \<Rightarrow> ustring \<Rightarrow> element \<Rightarrow> element list" where
  "select_child p t e =
     filter (\<lambda>d. is_tag t (snd d) \<and> (case fst d of [] \<Rightarrow> False | q # _ \<Rightarrow> is_tag p q))
       (descendants_of e)"

definition first_of :: "'a list \<Rightarrow> 'a option" where
  "first_of xs = (case xs of [] \<Rightarrow> None | x # _ \<Rightarrow> Some x)"

definition select_one_class_tag :: "ustring \<Rightarrow> ustring \<Rightarrow> element \<Rightarrow> element option" where
  "select_one_class_tag c t e = first_of (select_class_tag c t e)"

definition find_tag :: "ustring \<Rightarrow> element \<Rightarrow> element option" where
  "find_tag t e = first_of (filter (\<lambda>d. is_tag t (snd d)) (descendants_of e))"

text \<open>
  The text of a tag: its \<^verbatim>\<open>NavigableString\<close>s in document order. \<^verbatim>\<open>get_text()\<close> concatenates
  them; \<^verbatim>\<open>get_text(" ", strip=True)\<close> strips each, drops the empty ones and joins the rest
  with one space.
\<close>

fun strings :: "node \<Rightarrow> ustring list" where
  "strings (Tag n c a ch) = concat (map strings ch)"
| "strings (NavigableString s) = [s]"
| "strings (OtherString s) = []"

definition get_text :: "node \<Rightarrow> ustring" where
  "get_text n = concat (strings n)"

definition get_text_stripped :: "node \<Rightarrow> ustring" where
  "get_text_stripped n = py_join SPACE (filter (\<lambda>s. s \<noteq> []) (map py_strip (strings n)))"

text \<open>\<^verbatim>\<open>p.get_text(" ", strip=True) if p else ""\<close>; a tag is always true.\<close>

definition text_or_empty :: "element option \<Rightarrow> ustring" where
  "text_or_empty p = (case p of None \<Rightarrow> [] | Some e \<Rightarrow> get_text_stripped (snd e))"

section \<open>What the scripts take from outside\<close>

text \<open>
  The HTML parser is a library, and so are the Unicode tables behind \<^verbatim>\<open>str.upper\<close>,
  \<^verbatim>\<open>str.lower\<close> and the digit class \<^verbatim>\<open>\d\<close>. They are parameters: the parser as a whole,
  case conversion for the strings that are not pure ASCII, the digit class for the
  characters that are not ASCII. On ASCII all three are written out.
\<close>

record libs =
  BeautifulSoup :: "ustring \<Rightarrow> node"
  unicode_upper :: "ustring \<Rightarrow> ustring"
  unicode_lower :: "ustring \<Rightarrow> ustring"
  unicode_isdecimal :: "nat \<Rightarrow> bool"

definition is_ascii :: "ustring \<Rightarrow> bool" where
  "is_ascii s = list_all (\<lambda>c. c < 128) s"

definition ascii_upper :: "nat \<Rightarrow> nat" where
  "ascii_upper c = (if 97 \<le> c \<and> c \<le> 122 then c - 32 else c)"

definition ascii_lower :: "nat \<Rightarrow> nat" where
  "ascii_lower c = (if 65 \<le> c \<and> c \<le> 90 then c + 32 else c)"

definition py_upper :: "libs \<Rightarrow> ustring \<Rightarrow> ustring" where
  "py_upper L s = (if is_ascii s then map ascii_upper s else unicode_upper L s)"

definition py_lower :: "libs \<Rightarrow> ustring \<Rightarrow> ustring" where
  "py_lower L s = (if is_ascii s then map ascii_lower s else unicode_lower L s)"

definition py_isdecimal :: "libs \<Rightarrow> nat \<Rightarrow> bool" where
  "py_isdecimal L c = (if c < 128 then 48 \<le> c \<and> c \<le> 57 else unicode_isdecimal L c)"

section \<open>The two regular expressions\<close>

text \<open>
  Under \<^verbatim>\<open>re.IGNORECASE\<close> a lower-case ASCII letter of the pattern matches itself and its
  capital. (No other character has one of the letters of \<^verbatim>\<open>chapter\<close> or of \<^verbatim>\<open>a\<close> to \<^verbatim>\<open>d\<close>
  as its lower case.)
\<close>

definition ci_eq :: "nat \<Rightarrow> nat \<Rightarrow> bool" where
  "ci_eq lo c \<longleftrightarrow> c = lo \<or> c + 32 = lo"

text \<open>
  \<^verbatim>\<open>(chapter\d+)\<close> at the start of a string: seven letters, then the longest run of digits,
  which must not be empty. The group is the matched text itself.
\<close>

definition match_chapter :: "libs \<Rightarrow> ustring \<Rightarrow> ustring option" where
  "match_chapter L s =
     (if list_all2 ci_eq (U ''chapter'') (take 7 s) \<and> takeWhile (py_isdecimal L) (drop 7 s) \<noteq> []
      then Some (take 7 s @ takeWhile (py_isdecimal L) (drop 7 s)) else None)"

text \<open>\<^verbatim>\<open>re.search\<close>: the match at the leftmost position that has one.\<close>

fun search_chapter :: "libs \<Rightarrow> ustring \<Rightarrow> ustring option" where
  "search_chapter L [] = None"
| "search_chapter L (c # cs) =
     (case match_chapter L (c # cs) of
        Some m \<Rightarrow> Some m
      | None \<Rightarrow> search_chapter L cs)"

text \<open>
  \<^verbatim>\<open>m = re.search(r"(chapter\d+)", folder.replace("\\", "/"), flags=re.IGNORECASE)\<close> and
  \<^verbatim>\<open>chapter_no = m.group(1) if m else ""\<close>, the same in the three scripts.
\<close>

definition chapter_no :: "libs \<Rightarrow> ustring \<Rightarrow> ustring" where
  "chapter_no L folder =
     (case search_chapter L (py_replace BACKSLASH SLASH folder) of
        Some m \<Rightarrow> m
      | None \<Rightarrow> [])"

text \<open>
  \<^verbatim>\<open>re.search(r"-\(([A-D])\)", tc, re.IGNORECASE)\<close>: the letter of the leftmost
  \<^verbatim>\<open>-(x)\<close> with \<open>x\<close> one of A to D in either case.
\<close>

definition in_A_D :: "nat \<Rightarrow> bool" where
  "in_A_D c \<longleftrightarrow> ci_eq 97 c \<or> ci_eq 98 c \<or> ci_eq 99 c \<or> ci_eq 100 c"

fun search_correct :: "ustring \<Rightarrow> nat option" where
  "search_correct (a # b # c # d # r) =
     (if a = 45 \<and> b = 40 \<and> in_A_D c \<and> d = 41 then Some c
      else search_correct (b # c # d # r))"
| "search_correct s = None"

section \<open>Long and short questions\<close>

record question =
  id' :: "ustring option"
  english :: ustring
  urdu :: ustring

definition select_rows :: "node \<Rightarrow> element list" where
  "select_rows soup =
     select_id_class (U ''chooseQuestionsByChapterIDs'') (U ''TableHover'') ([], soup)"

text \<open>The body of the loop of \<^verbatim>\<open>extract_questions\<close> (short.py), for one row.\<close>

definition question_of_row :: "element \<Rightarrow> question" where
  "question_of_row row =
     (let qid = tag_get (snd row) (U ''id'');
          eng_p = select_one_class_tag (U ''EnglishDiv'') (U ''p'') row;
          urd_p = select_one_class_tag (U ''UrduDiv'') (U ''p'') row;
          eng = py_replace NBSP SPACE (text_or_empty eng_p);
          urd = py_replace NBSP SPACE (text_or_empty urd_p)
      in \<lparr>id' = qid, english = eng, urdu = urd\<rparr>)"

definition extract_questions :: "libs \<Rightarrow> ustring \<Rightarrow> question list" where
  "extract_questions L html_text = map question_of_row (select_rows (BeautifulSoup L html_text))"

text \<open>The body of the loop of \<^verbatim>\<open>extract_long_questions\<close> (long.py), for one row.\<close>

definition long_question_of_row :: "element \<Rightarrow> question" where
  "long_question_of_row row =
     (let qid = tag_get (snd row) (U ''id'');
          eng_p = select_one_class_tag (U ''EnglishDiv'') (U ''p'') row;
          urd_p = select_one_class_tag (U ''UrduDiv'') (U ''p'') row;
          eng = py_replace NBSP SPACE (text_or_empty eng_p);
          urd = py_replace NBSP SPACE (text_or_empty urd_p)
      in \<lparr>id' = qid, english = eng, urdu = urd\<rparr>)"

definition extract_long_questions :: "libs \<Rightarrow> ustring \<Rightarrow> question list" where
  "extract_long_questions L html_text =
     map long_question_of_row (select_rows (BeautifulSoup L html_text))"

section \<open>Multiple-choice questions\<close>

record option_text =
  en :: ustring
  ur :: ustring

record mcq =
  mcq_id :: "ustring option"
  question_en :: ustring
  question_ur :: ustring
  option_a_en :: ustring
  option_a_ur :: ustring
  option_b_en :: ustring
  option_b_ur :: ustring
  option_c_en :: ustring
  option_c_ur :: ustring
  option_d_en :: ustring
  option_d_ur :: ustring
  correct_option :: ustring

text \<open>\<^verbatim>\<open>_clean\<close>: the text is never \<^verbatim>\<open>None\<close> where it is called.\<close>

definition clean :: "ustring \<Rightarrow> ustring" where
  "clean text = py_strip (py_replace NBSP SPACE text)"

text \<open>The dictionary \<^verbatim>\<open>opts\<close> as it is before the options of a row are read.\<close>

definition opts_init :: "ustring \<rightharpoonup> option_text" where
  "opts_init =
     [U ''A'' \<mapsto> \<lparr>en = [], ur = []\<rparr>, U ''B'' \<mapsto> \<lparr>en = [], ur = []\<rparr>,
      U ''C'' \<mapsto> \<lparr>en = [], ur = []\<rparr>, U ''D'' \<mapsto> \<lparr>en = [], ur = []\<rparr>]"

text \<open>The letter of a list item: \<^verbatim>\<open>"(A)"\<close> gives \<^verbatim>\<open>"A"\<close>; no label gives the empty string.\<close>

definition li_letter :: "libs \<Rightarrow> element \<Rightarrow> ustring" where
  "li_letter L li =
     (case find_tag (U ''span'') li of
        None \<Rightarrow> []
      | Some letter_span \<Rightarrow>
          if get_text (snd letter_span) \<noteq> []
          then py_upper L (py_strip_chars (U ''()'') (py_strip (get_text (snd letter_span))))
          else [])"

definition li_en_txt :: "element \<Rightarrow> ustring" where
  "li_en_txt li = clean (text_or_empty (select_one_class_tag (U ''En'') (U ''p'') li))"

definition li_ur_txt :: "element \<Rightarrow> ustring" where
  "li_ur_txt li = clean (text_or_empty (select_one_class_tag (U ''Ur'') (U ''p'') li))"

text \<open>\<^verbatim>\<open>li.get("thiscorrect", "")\<close>.\<close>

definition thiscorrect :: "element \<Rightarrow> ustring" where
  "thiscorrect li = (case tag_get (snd li) (U ''thiscorrect'') of None \<Rightarrow> [] | Some tc \<Rightarrow> tc)"

text \<open>
  One turn of the loop over the list items, on the two variables it assigns: \<^verbatim>\<open>opts\<close> and
  \<^verbatim>\<open>correct_letter\<close>.
\<close>

definition li_step :: "libs \<Rightarrow> (ustring \<rightharpoonup> option_text) \<times> ustring \<Rightarrow> element \<Rightarrow>
    (ustring \<rightharpoonup> option_text) \<times> ustring" where
  "li_step L st li =
     (let opts = fst st; correct_letter = snd st;
          letter = li_letter L li;
          en_txt = li_en_txt li;
          ur_txt = li_ur_txt li;
          opts' = (if opts letter \<noteq> None then opts(letter \<mapsto> \<lparr>en = en_txt, ur = ur_txt\<rparr>)
                   else opts);
          correct_letter' =
            (if U ''correctAnswer'' \<in> set (class_list (snd li))
             then (if letter \<noteq> [] then letter
                   else (case search_correct (thiscorrect li) of
                           Some g \<Rightarrow> py_upper L [g]
                         | None \<Rightarrow> correct_letter))
             else correct_letter)
      in (opts', correct_letter'))"

definition scan_options :: "libs \<Rightarrow> element \<Rightarrow> (ustring \<rightharpoonup> option_text) \<times> ustring" where
  "scan_options L row =
     foldl (li_step L) (opts_init, []) (select_child (U ''ul'') (U ''li'') row)"

text \<open>
  The four keys of \<^verbatim>\<open>opts\<close> are never removed, so \<^verbatim>\<open>opts["A"]\<close> is always there
  (\<open>scan_options_keys\<close> below).
\<close>

definition mcq_of_row :: "libs \<Rightarrow> element \<Rightarrow> mcq" where
  "mcq_of_row L row =
     (let qid = tag_get (snd row) (U ''id'');
          eng_p = select_one_class_tag (U ''EnglishDiv'') (U ''p'') row;
          urd_p = select_one_class_tag (U ''UrduDiv'') (U ''p'') row;
          opts = fst (scan_options L row);
          correct_letter = snd (scan_options L row)
      in \<lparr>mcq_id = qid,
          question_en = clean (text_or_empty eng_p),
          question_ur = clean (text_or_empty urd_p),
          option_a_en = en (the (opts (U ''A''))), option_a_ur = ur (the (opts (U ''A''))),
          option_b_en = en (the (opts (U ''B''))), option_b_ur = ur (the (opts (U ''B''))),
          option_c_en = en (the (opts (U ''C''))), option_c_ur = ur (the (opts (U ''C''))),
          option_d_en = en (the (opts (U ''D''))), option_d_ur = ur (the (opts (U ''D''))),
          correct_option = correct_letter\<rparr>)"

definition extract_mcqs :: "libs \<Rightarrow> ustring \<Rightarrow> mcq list" where
  "extract_mcqs L html_text = map (mcq_of_row L) (select_rows (BeautifulSoup L html_text))"

section \<open>Fixtures and the words of the specification\<close>

text \<open>
  A stand-in for the libraries, for evaluation on ASCII input: the parser returns the given
  tree, and no character outside ASCII has a case or is a digit.
\<close>

definition plain_libs :: "node \<Rightarrow> libs" where
  "plain_libs doc = \<lparr>BeautifulSoup = (\<lambda>html. doc), unicode_upper = (\<lambda>s. s),
     unicode_lower = (\<lambda>s. s), unicode_isdecimal = (\<lambda>c. False)\<rparr>"

text \<open>
  The specification's chapter identifier: \<open>chapter\<close> in any case followed by one or more
  digits.
\<close>

definition chapter_token :: "libs \<Rightarrow> ustring \<Rightarrow> bool" where
  "chapter_token L w \<longleftrightarrow>
     list_all2 ci_eq (U ''chapter'') (take 7 w) \<and> drop 7 w \<noteq> [] \<and>
     list_all (py_isdecimal L) (drop 7 w)"





text \<open>
  A page of one multiple-choice question, as the site writes it: the container with the
  identifier, the row, the two divisions of the question and the list of the options. An
  option has its label in a \<^verbatim>\<open>span\<close> and its two texts in a paragraph each; \<open>mark\<close> gives
  it the class \<^verbatim>\<open>correctAnswer\<close>.
\<close>

definition option_item :: "bool \<Rightarrow> (ustring \<times> ustring) list \<Rightarrow> ustring \<Rightarrow> ustring \<Rightarrow> ustring \<Rightarrow> node" where
  "option_item mark attrs label e u =
     Tag (U ''li'') (if mark then Some [U ''correctAnswer''] else None) attrs
       [Tag (U ''span'') None [] [NavigableString label],
        Tag (U ''div'') (Some [U ''En'']) [] [Tag (U ''p'') None [] [NavigableString e]],
        Tag (U ''div'') (Some [U ''Ur'']) [] [Tag (U ''p'') None [] [NavigableString u]]]"

text \<open>A node built by \<open>option_item\<close>.\<close>

definition is_item :: "node \<Rightarrow> bool" where
  "is_item n \<longleftrightarrow> (\<exists>mark attrs label e u. n = option_item mark attrs label e u)"

definition mcq_ul :: "node list \<Rightarrow> node" where
  "mcq_ul items = Tag (U ''ul'') None [] items"

definition mcq_row :: "(ustring \<times> ustring) list \<Rightarrow> node list \<Rightarrow> node" where
  "mcq_row row_attrs items =
     Tag (U ''div'') (Some [U ''TableHover'']) row_attrs
       [Tag (U ''div'') (Some [U ''EnglishDiv'']) []
          [Tag (U ''p'') None [] [NavigableString (U ''Which?'')]],
        Tag (U ''div'') (Some [U ''UrduDiv'']) []
          [Tag (U ''p'') None [] [NavigableString (U ''Kaun?'')]],
        mcq_ul items]"

definition mcq_box :: "(ustring \<times> ustring) list \<Rightarrow> node list \<Rightarrow> node" where
  "mcq_box row_attrs items =
     Tag (U ''div'') None [(U ''id'', U ''chooseQuestionsByChapterIDs'')] [mcq_row row_attrs items]"

definition mcq_page :: "(ustring \<times> ustring) list \<Rightarrow> node list \<Rightarrow> node" where
  "mcq_page row_attrs items = Tag (U ''[document]'') None [] [mcq_box row_attrs items]"

text \<open>The ancestors of a list item of such a page, the parent first.\<close>

definition page_path :: "(ustring \<times> ustring) list \<Rightarrow> node list \<Rightarrow> node list" where
  "page_path row_attrs items =
     [mcq_ul items, mcq_row row_attrs items, mcq_box row_attrs items, mcq_page row_attrs items]"

text \<open>Four options out of order, the second one marked.\<close>

definition four_options :: node where
  "four_options = mcq_page [(U ''id'', U ''M1'')]
     [option_item False [] (U ''(B)'') (U ''beta'') (U ''bey''),
      option_item True [(U ''thiscorrect'', U ''1-(A)'')] (U ''(A)'') (U ''alpha'') (U ''alif''),
      option_item False [] (U ''(D)'') (U ''delta'') (U ''dal''),
      option_item False [] (U ''(C)'') (U ''gamma'') (U ''jim'')]"

text \<open>One marked option with the label \<^verbatim>\<open>(E)\<close>.\<close>

definition option_e :: node where
  "option_e = mcq_page [(U ''id'', U ''M2'')]
     [option_item True [] (U ''(E)'') (U ''eps'') (U ''ye'')]"



text \<open>
  A marked option without label, whose \<^verbatim>\<open>thiscorrect\<close> attribute names the answer, and two
  options of the same letter.
\<close>

definition fallback_page :: node where
  "fallback_page = mcq_page []
     [option_item True [(U ''thiscorrect'', U ''12-(c)'')] [] (U ''x'') (U ''y''),
      option_item False [] (U ''(A)'') (U ''first'') (U ''f''),
      option_item False [] (U '' (a) '') (U ''second'') (U ''s'')]"

text \<open>A list item carries the marker class.\<close>

definition marked :: "element \<Rightarrow> bool" where
  "marked li \<longleftrightarrow> U ''correctAnswer'' \<in> set (class_list (snd li))"

text \<open>
  The letter one list item gives for the correct answer, in the words of the
  specification: nothing without the marker class; with it, the letter of the label when
  that is not empty, otherwise the letter of the first \<^verbatim>\<open>-(LETTER)\<close> of the fallback
  attribute, in upper case, if there is one.
\<close>

definition item_answer :: "libs \<Rightarrow> element \<Rightarrow> ustring option" where
  "item_answer L li =
     (if marked li
      then (if li_letter L li \<noteq> [] then Some (li_letter L li)
            else map_option (\<lambda>g. py_upper L [g]) (search_correct (thiscorrect li)))
      else None)"

text \<open>The four keys of \<^verbatim>\<open>opts\<close>.\<close>

definition letters :: "ustring set" where
  "letters = {U ''A'', U ''B'', U ''C'', U ''D''}"

text \<open>The label of a list item: the text of its first \<^verbatim>\<open>span\<close>, as it stands.\<close>

definition li_label :: "element \<Rightarrow> ustring" where
  "li_label li = (case find_tag (U ''span'') li of None \<Rightarrow> [] | Some s \<Rightarrow> get_text (snd s))"


section \<open>Properties\<close>

subsection \<open>Strings and paths\<close>

lemma takeWhile_absent: "x \<notin> set a \<Longrightarrow> takeWhile (\<lambda>c. c \<noteq> x) a = a"
  by (induction a) auto

lemma dropWhile_absent: "x \<notin> set a \<Longrightarrow> dropWhile (\<lambda>c. c \<noteq> x) a = []"
  by (induction a) auto

lemma takeWhile_upto: "x \<notin> set a \<Longrightarrow> takeWhile (\<lambda>c. c \<noteq> x) (a @ x # r) = a"
  by (induction a) auto

lemma dropWhile_upto: "x \<notin> set a \<Longrightarrow> dropWhile (\<lambda>c. c \<noteq> x) (a @ x # r) = x # r"
  by (induction a) auto

lemma basename_no_slash: "SLASH \<notin> set p \<Longrightarrow> basename p = p"
  by (simp add: basename_def takeWhile_absent)

lemma takeWhile_rev_last_sep:
  assumes "d \<notin> set e"
  shows "takeWhile (\<lambda>c. c \<noteq> d) (rev (pre @ d # e)) = rev e"
  using takeWhile_upto [of d "rev e" "rev pre"] assms by simp

lemma splitext_last_dot:
  assumes "SLASH \<notin> set pre" "SLASH \<notin> set e" "DOT \<notin> set e" "\<exists>c \<in> set pre. c \<noteq> DOT"
  shows "splitext (pre @ DOT # e) = (pre, DOT # e)"
proof -
  have ds: "DOT \<noteq> SLASH" by (simp add: DOT_def SLASH_def)
  have b: "basename (pre @ DOT # e) = pre @ DOT # e"
    using assms ds by (intro basename_no_slash) auto
  have t: "takeWhile (\<lambda>c. c \<noteq> DOT) (rev (pre @ DOT # e)) = rev e"
    using assms(3) by (rule takeWhile_rev_last_sep)
  show ?thesis
    unfolding splitext_def b Let_def t using assms(4) by simp
qed

lemma splitext_no_dot: "DOT \<notin> set p \<Longrightarrow> splitext p = (p, [])"
proof -
  assume a: "DOT \<notin> set p"
  have "set (basename p) \<subseteq> set p"
    unfolding basename_def using set_takeWhileD by fastforce
  with a have "DOT \<notin> set (basename p)" by blast
  then show ?thesis by (simp add: splitext_def Let_def)
qed

lemma py_split_cut:
  "sep \<notin> set a \<Longrightarrow> py_split sep (Suc n) (a @ sep # r) = a # py_split sep n r"
  by (simp add: dropWhile_upto takeWhile_upto)

lemma py_split_none: "sep \<notin> set a \<Longrightarrow> py_split sep n a = [a]"
  by (cases n) (simp_all add: dropWhile_absent)

text \<open>
  C4. For a file name \<open>N.M.slug.html\<close> the section number is \<open>N.M\<close> and the section name
  is \<open>slug\<close>; for \<open>N.M.html\<close> the number is \<open>N.M\<close> and the name is empty; and a file name
  whose stem has no dot has an empty section number and the stem as its name. \<open>N\<close> and
  \<open>M\<close> are numbers: \<open>N\<close> is not empty, and neither holds a dot or a slash; the slug is any
  text without a slash.
\<close>

theorem parse_section_parts_forms:
  assumes "N \<noteq> []" "DOT \<notin> set N" "SLASH \<notin> set N" "DOT \<notin> set M" "SLASH \<notin> set M"
    and "SLASH \<notin> set slug"
  shows "parse_section_parts (N @ DOT # M @ DOT # slug @ U ''.html'') = (N @ DOT # M, slug) \<and>
         parse_section_parts (N @ DOT # M @ U ''.html'') = (N @ DOT # M, []) \<and>
         (DOT \<notin> set (fst (splitext (basename f))) \<longrightarrow>
            parse_section_parts f = ([], fst (splitext (basename f))))"
proof -
  have ds: "DOT \<noteq> SLASH" by (simp add: DOT_def SLASH_def)
  have html: "U ''.html'' = DOT # U ''html''" by (simp add: DOT_def)
  have e1: "SLASH \<notin> set (U ''html'')" and e2: "DOT \<notin> set (U ''html'')"
    by (simp_all add: SLASH_def DOT_def)
  obtain n where n: "n \<in> set N" "n \<noteq> DOT"
    using assms(1,2) by (cases N) auto
  let ?p1 = "N @ DOT # M @ DOT # slug"
  let ?p2 = "N @ DOT # M"
  have s1: "splitext (?p1 @ DOT # U ''html'') = (?p1, DOT # U ''html'')"
    using assms ds e1 e2 n by (intro splitext_last_dot) auto
  have s2: "splitext (?p2 @ DOT # U ''html'') = (?p2, DOT # U ''html'')"
    using assms ds e1 e2 n by (intro splitext_last_dot) auto
  have b1: "basename (?p1 @ DOT # U ''html'') = ?p1 @ DOT # U ''html''"
    using assms ds e1 by (intro basename_no_slash) auto
  have b2: "basename (?p2 @ DOT # U ''html'') = ?p2 @ DOT # U ''html''"
    using assms ds e1 by (intro basename_no_slash) auto
  have sp1: "py_split DOT 2 ?p1 = [N, M, slug]"
  proof -
    have "py_split DOT (Suc (Suc 0)) (N @ DOT # (M @ DOT # slug))
        = N # py_split DOT (Suc 0) (M @ DOT # slug)"
      using assms(2) by (rule py_split_cut)
    also have "py_split DOT (Suc 0) (M @ DOT # slug) = M # py_split DOT 0 slug"
      using assms(4) by (rule py_split_cut)
    finally show ?thesis by (simp add: numeral_2_eq_2)
  qed
  have sp2: "py_split DOT 2 ?p2 = [N, M]"
  proof -
    have "py_split DOT (Suc (Suc 0)) (N @ DOT # M) = N # py_split DOT (Suc 0) M"
      using assms(2) by (rule py_split_cut)
    also have "py_split DOT (Suc 0) M = [M]"
      using assms(4) by (rule py_split_none)
    finally show ?thesis by (simp add: numeral_2_eq_2)
  qed
  have f1: "N @ DOT # M @ DOT # slug @ U ''.html'' = ?p1 @ DOT # U ''html''"
    unfolding html by simp
  have f2: "N @ DOT # M @ U ''.html'' = ?p2 @ DOT # U ''html''"
    unfolding html by simp
  have c1: "parse_section_parts (N @ DOT # M @ DOT # slug @ U ''.html'') = (N @ DOT # M, slug)"
    unfolding f1 parse_section_parts_def b1 s1 Let_def fst_conv sp1 by simp
  have c2: "parse_section_parts (N @ DOT # M @ U ''.html'') = (N @ DOT # M, [])"
    unfolding f2 parse_section_parts_def b2 s2 Let_def fst_conv sp2 by simp
  have c3: "parse_section_parts f = ([], fst (splitext (basename f)))"
    if "DOT \<notin> set (fst (splitext (basename f)))"
    unfolding parse_section_parts_def Let_def
    using py_split_none [OF that, of 2] by simp
  from c1 c2 c3 show ?thesis by blast
qed

theorem parse_section_parts_forms_witness:
  "parse_section_parts (U ''1.1.intro.html'') = (U ''1.1'', U ''intro'') \<and>
   parse_section_parts (U ''1.1.html'') = (U ''1.1'', []) \<and>
   DOT \<notin> set (fst (splitext (basename (U ''readme.html'')))) \<and>
   parse_section_parts (U ''readme.html'') = ([], U ''readme'')"
proof -
  have h: "DOT \<notin> set (fst (splitext (basename (U ''readme.html''))))"
    by (simp add: splitext_def basename_def DOT_def SLASH_def)
  have s: "fst (splitext (basename (U ''readme.html''))) = U ''readme''"
    by (simp add: splitext_def basename_def DOT_def SLASH_def)
  show ?thesis
    using parse_section_parts_forms [of "U ''1''" "U ''1''" "U ''intro''" "U ''readme.html''"] h s
    by (simp add: DOT_def SLASH_def)
qed

subsection \<open>The chapter of a folder\<close>

lemma list_all2_right_witness:
  "list_all2 P as xs \<Longrightarrow> x \<in> set xs \<Longrightarrow> \<exists>a \<in> set as. P a x"
  by (induction as xs rule: list_all2_induct) auto

lemma chapter_letters: "set (U ''chapter'') = {99, 104, 97, 112, 116, 101, 114}"
  by simp

lemma ci_chapter_no_backslash:
  assumes "list_all2 ci_eq (U ''chapter'') xs"
  shows "BACKSLASH \<notin> set xs"
proof
  assume "BACKSLASH \<in> set xs"
  from list_all2_right_witness [OF assms this]
  obtain a where "a \<in> set (U ''chapter'')" "ci_eq a BACKSLASH" by blast
  then show False
    unfolding chapter_letters by (auto simp: ci_eq_def BACKSLASH_def)
qed

lemma ci_chapter_length: "list_all2 ci_eq (U ''chapter'') xs \<Longrightarrow> length xs = 7"
  by (drule list_all2_lengthD) simp

lemma replace_id: "old \<notin> set xs \<Longrightarrow> py_replace old new xs = xs"
  unfolding py_replace_def by (induction xs) auto

lemma list_all2_map2_cong:
  "(\<And>a y. a \<in> set as \<Longrightarrow> P a (f y) = P a y) \<Longrightarrow> list_all2 P as (map f ys) = list_all2 P as ys"
proof (induction as arbitrary: ys)
  case Nil
  show ?case by simp
next
  case (Cons a as)
  show ?case
  proof (cases ys)
    case Nil
    then show ?thesis by simp
  next
    case (Cons y ys')
    with Cons.IH [of ys'] Cons.prems show ?thesis by simp
  qed
qed

lemma ci_chapter_replace:
  "list_all2 ci_eq (U ''chapter'') (py_replace BACKSLASH SLASH xs)
     = list_all2 ci_eq (U ''chapter'') xs"
  unfolding py_replace_def
proof (rule list_all2_map2_cong)
  fix a y assume "a \<in> set (U ''chapter'')"
  then show "ci_eq a (if y = BACKSLASH then SLASH else y) = ci_eq a y"
    unfolding chapter_letters by (auto simp: ci_eq_def BACKSLASH_def SLASH_def)
qed

lemma isdecimal_replace:
  "py_isdecimal L (if c = BACKSLASH then SLASH else c) = py_isdecimal L c"
  by (simp add: py_isdecimal_def BACKSLASH_def SLASH_def)

lemma takeWhile_decimal_replace:
  "takeWhile (py_isdecimal L) (py_replace BACKSLASH SLASH xs) = takeWhile (py_isdecimal L) xs"
proof (induction xs)
  case Nil
  show ?case by (simp add: py_replace_def)
next
  case (Cons x xs)
  have nb: "\<not> py_isdecimal L BACKSLASH" "\<not> py_isdecimal L SLASH"
    by (simp_all add: py_isdecimal_def BACKSLASH_def SLASH_def)
  from Cons nb show ?case
    by (auto simp: py_replace_def)
qed

lemma match_chapter_replace:
  "match_chapter L (py_replace BACKSLASH SLASH s) = match_chapter L s"
proof -
  let ?r = "py_replace BACKSLASH SLASH"
  have t: "take 7 (?r s) = ?r (take 7 s)" and d: "drop 7 (?r s) = ?r (drop 7 s)"
    by (simp_all add: py_replace_def take_map drop_map)
  have keep: "?r (take 7 s) = take 7 s" if "list_all2 ci_eq (U ''chapter'') (take 7 s)"
    using that by (intro replace_id ci_chapter_no_backslash)
  show ?thesis
    unfolding match_chapter_def t d ci_chapter_replace takeWhile_decimal_replace
    using keep by auto
qed

lemma search_chapter_replace:
  "search_chapter L (py_replace BACKSLASH SLASH s) = search_chapter L s"
proof (induction s)
  case Nil
  show ?case by (simp add: py_replace_def)
next
  case (Cons c cs)
  let ?r = "py_replace BACKSLASH SLASH"
  have e: "?r (c # cs) = (if c = BACKSLASH then SLASH else c) # ?r cs"
    by (simp add: py_replace_def)
  have m: "match_chapter L ((if c = BACKSLASH then SLASH else c) # ?r cs)
      = match_chapter L (c # cs)"
    using match_chapter_replace [of L "c # cs"] unfolding e .
  show ?case
    unfolding e by (simp only: search_chapter.simps m Cons)
qed

lemma chapter_no_search:
  "chapter_no L folder = (case search_chapter L folder of Some m \<Rightarrow> m | None \<Rightarrow> [])"
  by (simp add: chapter_no_def search_chapter_replace)

lemma match_chapter_Some:
  assumes "match_chapter L s = Some m"
  shows "chapter_token L m \<and> (\<exists>post. s = m @ post)"
proof -
  let ?d = "takeWhile (py_isdecimal L) (drop 7 s)"
  from assms have c: "list_all2 ci_eq (U ''chapter'') (take 7 s)" and ne: "?d \<noteq> []"
    and m: "m = take 7 s @ ?d"
    by (auto simp: match_chapter_def split: if_splits)
  have l: "length (take 7 s) = 7" using c by (rule ci_chapter_length)
  have t: "take 7 m = take 7 s" and d: "drop 7 m = ?d" using l m by simp_all
  have "list_all (py_isdecimal L) ?d"
    by (simp add: list_all_iff) (meson set_takeWhileD)
  then have tok: "chapter_token L m" using c ne t d by (simp add: chapter_token_def)
  have "s = take 7 s @ ?d @ dropWhile (py_isdecimal L) (drop 7 s)" by simp
  then have "s = m @ dropWhile (py_isdecimal L) (drop 7 s)" using m by simp
  with tok show ?thesis by blast
qed

lemma token_prefix:
  assumes "chapter_token L w"
  shows "\<exists>m. match_chapter L (w @ post) = Some m \<and> length w \<le> length m"
proof -
  from assms have c: "list_all2 ci_eq (U ''chapter'') (take 7 w)" and ne: "drop 7 w \<noteq> []"
    and a: "list_all (py_isdecimal L) (drop 7 w)"
    by (simp_all add: chapter_token_def)
  have l: "length w > 7" using ne by simp
  have t: "take 7 (w @ post) = take 7 w" using l by simp
  have d: "drop 7 (w @ post) = drop 7 w @ post" using l by simp
  have tw: "takeWhile (py_isdecimal L) (drop 7 w @ post)
      = drop 7 w @ takeWhile (py_isdecimal L) post"
    using a by (intro takeWhile_append2) (simp add: list_all_iff)
  have "match_chapter L (w @ post)
      = Some (take 7 w @ drop 7 w @ takeWhile (py_isdecimal L) post)"
    unfolding match_chapter_def t d tw using c ne by simp
  then show ?thesis by simp
qed

lemma search_chapter_None:
  "search_chapter L s = None \<longleftrightarrow> (\<forall>pre t. s = pre @ t \<longrightarrow> match_chapter L t = None)"
proof (induction s)
  case Nil
  show ?case by (simp add: match_chapter_def)
next
  case (Cons c cs)
  show ?case
  proof
    assume a: "search_chapter L (c # cs) = None"
    then have m: "match_chapter L (c # cs) = None" and r: "search_chapter L cs = None"
      by (auto split: option.splits)
    show "\<forall>pre t. c # cs = pre @ t \<longrightarrow> match_chapter L t = None"
    proof (intro allI impI)
      fix pre t assume e: "c # cs = pre @ t"
      show "match_chapter L t = None"
      proof (cases pre)
        case Nil
        with e m show ?thesis by simp
      next
        case (Cons p ps)
        with e have "cs = ps @ t" by simp
        with r Cons.IH show ?thesis by blast
      qed
    qed
  next
    assume a: "\<forall>pre t. c # cs = pre @ t \<longrightarrow> match_chapter L t = None"
    then have m: "match_chapter L (c # cs) = None" by (metis append_Nil)
    have "\<forall>pre t. cs = pre @ t \<longrightarrow> match_chapter L t = None"
      using a by (metis append_Cons)
    with Cons.IH have "search_chapter L cs = None" by simp
    with m show "search_chapter L (c # cs) = None" by simp
  qed
qed

lemma search_chapter_Some:
  "search_chapter L s = Some m \<Longrightarrow>
     \<exists>pre t. s = pre @ t \<and> match_chapter L t = Some m \<and>
       (\<forall>pre' t'. s = pre' @ t' \<and> length pre' < length pre \<longrightarrow> match_chapter L t' = None)"
proof (induction s)
  case Nil
  then show ?case by simp
next
  case (Cons c cs)
  show ?case
  proof (cases "match_chapter L (c # cs)")
    case (Some m')
    with Cons.prems have "m' = m" by simp
    with Some have "c # cs = [] @ (c # cs) \<and> match_chapter L (c # cs) = Some m \<and>
       (\<forall>pre' t'. c # cs = pre' @ t' \<and> length pre' < length ([]::ustring) \<longrightarrow> match_chapter L t' = None)"
      by simp
    then show ?thesis by blast
  next
    case None
    with Cons.prems have "search_chapter L cs = Some m" by simp
    from Cons.IH [OF this] obtain pre t where
      p: "cs = pre @ t" "match_chapter L t = Some m"
      "\<forall>pre' t'. cs = pre' @ t' \<and> length pre' < length pre \<longrightarrow> match_chapter L t' = None"
      by blast
    have "match_chapter L t' = None" if "c # cs = pre' @ t'" "length pre' < length (c # pre)"
      for pre' t'
    proof (cases pre')
      case Nil
      with that None show ?thesis by simp
    next
      case (Cons q qs)
      with that have "cs = qs @ t'" "length qs < length pre" by simp_all
      with p(3) show ?thesis by blast
    qed
    with p(1,2) have "c # cs = (c # pre) @ t \<and> match_chapter L t = Some m \<and>
       (\<forall>pre' t'. c # cs = pre' @ t' \<and> length pre' < length (c # pre) \<longrightarrow> match_chapter L t' = None)"
      by simp
    then show ?thesis by blast
  qed
qed

lemma token_occurs_iff_search:
  "(\<exists>pre w post. s = pre @ w @ post \<and> chapter_token L w) \<longleftrightarrow> search_chapter L s \<noteq> None"
proof
  assume "\<exists>pre w post. s = pre @ w @ post \<and> chapter_token L w"
  then obtain pre w post where f: "s = pre @ w @ post" and t: "chapter_token L w" by blast
  from token_prefix [OF t, of post] have m: "match_chapter L (w @ post) \<noteq> None" by auto
  show "search_chapter L s \<noteq> None"
  proof
    assume "search_chapter L s = None"
    then have "\<forall>pre t. s = pre @ t \<longrightarrow> match_chapter L t = None"
      by (simp only: search_chapter_None)
    from this [rule_format, OF f] m show False by simp
  qed
next
  assume "search_chapter L s \<noteq> None"
  then obtain m where "search_chapter L s = Some m" by auto
  from search_chapter_Some [OF this] obtain pre t where
    p1: "s = pre @ t" and p2: "match_chapter L t = Some m" by blast
  from match_chapter_Some [OF p2] obtain post where "chapter_token L m" "t = m @ post" by blast
  with p1 have "s = pre @ m @ post \<and> chapter_token L m" by simp
  then show "\<exists>pre w post. s = pre @ w @ post \<and> chapter_token L w" by (intro exI)
qed

text \<open>
  C5. If the folder path has a substring that is \<open>chapter\<close> in any case followed by one or
  more digits, the chapter identifier is the first such substring, letter for letter as
  it stands in the path: it occurs in the path, no such substring starts further left,
  and none that starts at the same place is longer. If the path has no such substring,
  the chapter identifier is empty.
\<close>

theorem chapter_no_first_match:
  "((\<exists>pre w post. folder = pre @ w @ post \<and> chapter_token L w) \<longrightarrow>
      (\<exists>pre post. folder = pre @ chapter_no L folder @ post \<and>
         chapter_token L (chapter_no L folder) \<and>
         (\<forall>pre' w' post'. folder = pre' @ w' @ post' \<and> chapter_token L w' \<longrightarrow>
            length pre < length pre' \<or>
            (length pre' = length pre \<and> length w' \<le> length (chapter_no L folder))))) \<and>
   (\<not> (\<exists>pre w post. folder = pre @ w @ post \<and> chapter_token L w) \<longrightarrow>
      chapter_no L folder = [])"
proof (intro conjI impI)
  assume "\<exists>pre w post. folder = pre @ w @ post \<and> chapter_token L w"
  then obtain pre1 w1 post1 where f1: "folder = pre1 @ w1 @ post1" and t1: "chapter_token L w1"
    by blast
  from token_prefix [OF t1, of post1] have m1: "match_chapter L (w1 @ post1) \<noteq> None" by auto
  have "search_chapter L folder \<noteq> None"
  proof
    assume "search_chapter L folder = None"
    then have "\<forall>pre t. folder = pre @ t \<longrightarrow> match_chapter L t = None"
      by (simp only: search_chapter_None)
    from this [rule_format, OF f1] m1 show False by simp
  qed
  then obtain m where s: "search_chapter L folder = Some m" by auto
  then have cn: "chapter_no L folder = m" by (simp add: chapter_no_search)
  from search_chapter_Some [OF s] obtain pre t where
    p1: "folder = pre @ t" and p2: "match_chapter L t = Some m" and
    p3: "\<forall>pre' t'. folder = pre' @ t' \<and> length pre' < length pre \<longrightarrow> match_chapter L t' = None"
    by blast
  from match_chapter_Some [OF p2] obtain post where tok: "chapter_token L m" and t: "t = m @ post"
    by blast
  have least: "length pre < length pre' \<or> (length pre' = length pre \<and> length w' \<le> length m)"
    if a1: "folder = pre' @ w' @ post'" and a2: "chapter_token L w'" for pre' w' post'
  proof -
    from token_prefix [OF a2, of post'] obtain m' where
      m': "match_chapter L (w' @ post') = Some m'" and le: "length w' \<le> length m'" by blast
    have ge: "\<not> length pre' < length pre"
    proof
      assume "length pre' < length pre"
      with a1 have "folder = pre' @ (w' @ post') \<and> length pre' < length pre" by simp
      from p3 [rule_format, OF this] m' show False by simp
    qed
    show ?thesis
    proof (cases "length pre' = length pre")
      case True
      from p1 a1 have "pre' @ (w' @ post') = pre @ t" by simp
      with True have "w' @ post' = t" by (simp add: append_eq_append_conv)
      with m' p2 have "m' = m" by simp
      with le True show ?thesis by simp
    next
      case False
      with ge show ?thesis by simp
    qed
  qed
  have f: "folder = pre @ m @ post" using p1 t by simp
  have all: "\<forall>pre' w' post'. folder = pre' @ w' @ post' \<and> chapter_token L w' \<longrightarrow>
            length pre < length pre' \<or> (length pre' = length pre \<and> length w' \<le> length m)"
  proof (intro allI impI)
    fix pre' w' post'
    assume "folder = pre' @ w' @ post' \<and> chapter_token L w'"
    then have "folder = pre' @ w' @ post'" "chapter_token L w'" by simp_all
    then show "length pre < length pre' \<or> (length pre' = length pre \<and> length w' \<le> length m)"
      by (rule least)
  qed
  have "folder = pre @ m @ post \<and> chapter_token L m \<and>
         (\<forall>pre' w' post'. folder = pre' @ w' @ post' \<and> chapter_token L w' \<longrightarrow>
            length pre < length pre' \<or> (length pre' = length pre \<and> length w' \<le> length m))"
    by (rule conjI [OF f conjI [OF tok all]])
  then have "folder = pre @ chapter_no L folder @ post \<and>
         chapter_token L (chapter_no L folder) \<and>
         (\<forall>pre' w' post'. folder = pre' @ w' @ post' \<and> chapter_token L w' \<longrightarrow>
            length pre < length pre' \<or>
            (length pre' = length pre \<and> length w' \<le> length (chapter_no L folder)))"
    unfolding cn .
  then show "\<exists>pre post. folder = pre @ chapter_no L folder @ post \<and>
         chapter_token L (chapter_no L folder) \<and>
         (\<forall>pre' w' post'. folder = pre' @ w' @ post' \<and> chapter_token L w' \<longrightarrow>
            length pre < length pre' \<or>
            (length pre' = length pre \<and> length w' \<le> length (chapter_no L folder)))"
    by (intro exI)
next
  assume n: "\<not> (\<exists>pre w post. folder = pre @ w @ post \<and> chapter_token L w)"
  have "match_chapter L t = None" if e: "folder = pre @ t" for pre t
  proof (cases "match_chapter L t")
    case None then show ?thesis .
  next
    case (Some m)
    from match_chapter_Some [OF this] obtain post where
      "chapter_token L m" "t = m @ post" by blast
    with e have "folder = pre @ m @ post \<and> chapter_token L m" by simp
    then have "\<exists>pre w post. folder = pre @ w @ post \<and> chapter_token L w" by (intro exI)
    with n show ?thesis by (rule notE)
  qed
  then have "\<forall>pre t. folder = pre @ t \<longrightarrow> match_chapter L t = None" by simp
  then have "search_chapter L folder = None" by (simp only: search_chapter_None)
  then show "chapter_no L folder = []" by (simp add: chapter_no_search)
qed


theorem chapter_no_first_match_witness:
  "(\<exists>pre w post. U ''9th_class/biology/Chapter12/short'' = pre @ w @ post \<and>
      chapter_token (plain_libs (OtherString [])) w) \<and>
   chapter_token (plain_libs (OtherString []))
     (chapter_no (plain_libs (OtherString [])) (U ''9th_class/biology/Chapter12/short'')) \<and>
   chapter_no (plain_libs (OtherString [])) (U ''9th_class/biology/Chapter12/short'')
     = U ''Chapter12'' \<and>
   \<not> (\<exists>pre w post. U ''9th_class/biology/short'' = pre @ w @ post \<and>
      chapter_token (plain_libs (OtherString [])) w) \<and>
   chapter_no (plain_libs (OtherString [])) (U ''9th_class/biology/short'') = []"
proof -
  let ?L = "plain_libs (OtherString [])"
  let ?F = "U ''9th_class/biology/Chapter12/short''"
  let ?G = "U ''9th_class/biology/short''"
  have ev: "search_chapter ?L ?F = Some (U ''Chapter12'')" "search_chapter ?L ?G = None"
    by (simp_all add: match_chapter_def py_isdecimal_def ci_eq_def plain_libs_def)
  have h1: "\<exists>pre w post. ?F = pre @ w @ post \<and> chapter_token ?L w"
    unfolding token_occurs_iff_search using ev(1) by simp
  have h2: "\<not> (\<exists>pre w post. ?G = pre @ w @ post \<and> chapter_token ?L w)"
    unfolding token_occurs_iff_search using ev(2) by simp
  have a: "chapter_token ?L (chapter_no ?L ?F)"
    using chapter_no_first_match [of ?F ?L] h1 by blast
  have b: "chapter_no ?L ?G = []"
    using chapter_no_first_match [of ?G ?L] h2 by blast
  have c: "chapter_no ?L ?F = U ''Chapter12''"
    using ev(1) by (simp add: chapter_no_search)
  from h1 a c h2 b show ?thesis by (intro conjI)
qed

subsection \<open>Long and short questions\<close>


text \<open>
  C9. The extraction functions of the long-question and of the short-question script return
  the same sequence of records on every markup.
\<close>

theorem extract_long_equals_short:
  "extract_long_questions L html_text = extract_questions L html_text"
  by (simp add: extract_long_questions_def extract_questions_def long_question_of_row_def
      question_of_row_def)














subsection \<open>Multiple-choice questions\<close>

subsection \<open>The loop over the list items\<close>

lemma li_step_fst:
  "fst (li_step L st li) =
     (if fst st (li_letter L li) \<noteq> None
      then (fst st)(li_letter L li \<mapsto> \<lparr>en = li_en_txt li, ur = li_ur_txt li\<rparr>)
      else fst st)"
  by (simp add: li_step_def Let_def)

lemma li_step_snd:
  "snd (li_step L st li) = (case item_answer L li of None \<Rightarrow> snd st | Some y \<Rightarrow> y)"
  by (simp add: li_step_def Let_def item_answer_def marked_def split: option.splits)

lemma li_step_keeps_key: "fst st X \<noteq> None \<Longrightarrow> fst (li_step L st li) X \<noteq> None"
  by (simp add: li_step_fst)


lemma opts_init_keys: "X \<in> letters \<Longrightarrow> opts_init X \<noteq> None"
  by (auto simp: letters_def opts_init_def)

lemma opts_init_empty: "X \<in> letters \<Longrightarrow> opts_init X = Some \<lparr>en = [], ur = []\<rparr>"
  by (auto simp: letters_def opts_init_def)


lemma foldl_slot:
  assumes "fst st X \<noteq> None"
  shows "fst (foldl (li_step L) st lis) X =
     (case filter (\<lambda>li. li_letter L li = X) lis of
        [] \<Rightarrow> fst st X
      | j # js \<Rightarrow> Some \<lparr>en = li_en_txt (last (j # js)), ur = li_ur_txt (last (j # js))\<rparr>)"
  using assms
proof (induction lis arbitrary: st)
  case Nil
  then show ?case by simp
next
  case (Cons li lis)
  let ?st = "li_step L st li"
  have k: "fst ?st X \<noteq> None" using Cons.prems by (rule li_step_keeps_key)
  note ih = Cons.IH [OF k]
  show ?case
  proof (cases "li_letter L li = X")
    case True
    then have v: "fst ?st X = Some \<lparr>en = li_en_txt li, ur = li_ur_txt li\<rparr>"
      using Cons.prems by (simp add: li_step_fst)
    show ?thesis
    proof (cases "filter (\<lambda>li. li_letter L li = X) lis")
      case Nil
      with ih v True show ?thesis by simp
    next
      case (Cons j js)
      with ih True show ?thesis by simp
    qed
  next
    case False
    then have v: "fst ?st X = fst st X" by (auto simp: li_step_fst)
    with ih False show ?thesis by (simp split: list.splits)
  qed
qed

lemma foldl_no_answer:
  "(\<And>li. li \<in> set lis \<Longrightarrow> item_answer L li = None) \<Longrightarrow>
     snd (foldl (li_step L) st lis) = snd st"
proof (induction lis arbitrary: st)
  case Nil
  then show ?case by simp
next
  case (Cons li lis)
  have "snd (foldl (li_step L) (li_step L st li) lis) = snd (li_step L st li)"
    by (rule Cons.IH) (simp add: Cons.prems)
  moreover have "snd (li_step L st li) = snd st"
    by (simp add: li_step_snd Cons.prems)
  ultimately show ?case by simp
qed

lemma foldl_last_answer:
  assumes "item_answer L li = Some y"
    and "\<And>k. k \<in> set post \<Longrightarrow> item_answer L k = None"
  shows "snd (foldl (li_step L) st (pre @ li # post)) = y"
proof -
  have "snd (foldl (li_step L) st (pre @ li # post))
      = snd (foldl (li_step L) (li_step L (foldl (li_step L) st pre) li) post)"
    by simp
  also have "\<dots> = snd (li_step L (foldl (li_step L) st pre) li)"
    using assms(2) by (rule foldl_no_answer)
  also have "\<dots> = y" using assms(1) by (simp add: li_step_snd)
  finally show ?thesis .
qed

lemma search_correct_sound:
  "search_correct s = Some g \<Longrightarrow>
     in_A_D g \<and> (\<exists>pre post. s = pre @ 45 # 40 # g # 41 # post)"
proof (induction s rule: search_correct.induct)
  case (1 a b c d r)
  show ?case
  proof (cases "a = 45 \<and> b = 40 \<and> in_A_D c \<and> d = 41")
    case True
    with "1.prems" have "g = c" by simp
    with True have "in_A_D g \<and> a # b # c # d # r = [] @ 45 # 40 # g # 41 # r" by simp
    then show ?thesis by blast
  next
    case False
    with "1.prems" have "search_correct (b # c # d # r) = Some g" by auto
    from "1.IH" [OF False this] obtain pre post where
      "in_A_D g" "b # c # d # r = pre @ 45 # 40 # g # 41 # post" by blast
    then have "in_A_D g \<and> a # b # c # d # r = (a # pre) @ 45 # 40 # g # 41 # post" by simp
    then show ?thesis by blast
  qed
qed simp_all

lemma upper_fallback: "in_A_D g \<Longrightarrow> py_upper L [g] \<in> letters"
  by (auto simp: in_A_D_def ci_eq_def py_upper_def is_ascii_def ascii_upper_def letters_def)

lemma li_step_correct_in:
  assumes "snd st \<in> insert [] letters"
    and "marked li \<Longrightarrow> li_letter L li \<in> insert [] letters"
  shows "snd (li_step L st li) \<in> insert [] letters"
proof (cases "item_answer L li")
  case None
  with assms(1) show ?thesis by (simp add: li_step_snd)
next
  case (Some y)
  then have m: "marked li" by (simp add: item_answer_def split: if_splits)
  show ?thesis
  proof (cases "li_letter L li = []")
    case True
    with Some m obtain g where g: "search_correct (thiscorrect li) = Some g" "y = py_upper L [g]"
      by (auto simp: item_answer_def)
    have "in_A_D g" using search_correct_sound [OF g(1)] by simp
    then show ?thesis using Some g(2) upper_fallback [of g L] by (simp add: li_step_snd)
  next
    case False
    with Some m have "y = li_letter L li" by (simp add: item_answer_def)
    with assms(2) [OF m] Some show ?thesis by (simp add: li_step_snd)
  qed
qed


lemma extract_mcqs_nth:
  "i < length (select_rows (BeautifulSoup L html_text)) \<Longrightarrow>
     extract_mcqs L html_text ! i = mcq_of_row L (select_rows (BeautifulSoup L html_text) ! i)"
  by (simp add: extract_mcqs_def)

lemma mcq_of_row_correct: "correct_option (mcq_of_row L row) = snd (scan_options L row)"
  by (simp add: mcq_of_row_def Let_def)

lemma mcq_of_row_options:
  "option_a_en (mcq_of_row L row) = en (the (fst (scan_options L row) (U ''A'')))"
  "option_a_ur (mcq_of_row L row) = ur (the (fst (scan_options L row) (U ''A'')))"
  "option_b_en (mcq_of_row L row) = en (the (fst (scan_options L row) (U ''B'')))"
  "option_b_ur (mcq_of_row L row) = ur (the (fst (scan_options L row) (U ''B'')))"
  "option_c_en (mcq_of_row L row) = en (the (fst (scan_options L row) (U ''C'')))"
  "option_c_ur (mcq_of_row L row) = ur (the (fst (scan_options L row) (U ''C'')))"
  "option_d_en (mcq_of_row L row) = en (the (fst (scan_options L row) (U ''D'')))"
  "option_d_ur (mcq_of_row L row) = ur (the (fst (scan_options L row) (U ''D'')))"
  by (simp_all add: mcq_of_row_def Let_def)

lemma scan_options_slot:
  assumes "X \<in> letters"
    and "js = filter (\<lambda>li. li_letter L li = X) (select_child (U ''ul'') (U ''li'') row)"
    and "js \<noteq> []"
  shows "fst (scan_options L row) X = Some \<lparr>en = li_en_txt (last js), ur = li_ur_txt (last js)\<rparr>"
proof -
  from assms(3) obtain k ks where c: "js = k # ks" by (cases js) auto
  have "fst (opts_init, []::ustring) X \<noteq> None" using assms(1) by (simp add: opts_init_keys)
  from foldl_slot [OF this, of L "select_child (U ''ul'') (U ''li'') row"]
  show ?thesis
    unfolding scan_options_def assms(2) [symmetric] c by simp
qed

subsection \<open>The example pages\<close>

lemma filter_concat_map:
  "(\<And>k. k \<in> set items \<Longrightarrow> filter P (f k) = g k) \<Longrightarrow>
     filter P (concat (map f items)) = concat (map g items)"
  by (induction items) simp_all

lemma item_descendants:
  "descendants A (option_item m a l e u) =
     [(option_item m a l e u # A, Tag (U ''span'') None [] [NavigableString l]),
      (Tag (U ''span'') None [] [NavigableString l] # option_item m a l e u # A, NavigableString l),
      (option_item m a l e u # A,
         Tag (U ''div'') (Some [U ''En'']) [] [Tag (U ''p'') None [] [NavigableString e]]),
      (Tag (U ''div'') (Some [U ''En'']) [] [Tag (U ''p'') None [] [NavigableString e]]
         # option_item m a l e u # A, Tag (U ''p'') None [] [NavigableString e]),
      (Tag (U ''p'') None [] [NavigableString e]
         # Tag (U ''div'') (Some [U ''En'']) [] [Tag (U ''p'') None [] [NavigableString e]]
         # option_item m a l e u # A, NavigableString e),
      (option_item m a l e u # A,
         Tag (U ''div'') (Some [U ''Ur'']) [] [Tag (U ''p'') None [] [NavigableString u]]),
      (Tag (U ''div'') (Some [U ''Ur'']) [] [Tag (U ''p'') None [] [NavigableString u]]
         # option_item m a l e u # A, Tag (U ''p'') None [] [NavigableString u]),
      (Tag (U ''p'') None [] [NavigableString u]
         # Tag (U ''div'') (Some [U ''Ur'']) [] [Tag (U ''p'') None [] [NavigableString u]]
         # option_item m a l e u # A, NavigableString u)]"
  by (simp add: option_item_def)

lemma item_class: "class_list (option_item m a l e u) = (if m then [U ''correctAnswer''] else [])"
  by (simp add: option_item_def)

lemma item_tag: "is_tag t (option_item m a l e u) \<longleftrightarrow> t = U ''li''"
  by (auto simp: option_item_def)

lemma item_get: "tag_get (option_item m a l e u) k = map_of a k"
  by (simp add: option_item_def)

lemma item_letter:
  "li_letter L (A, option_item m a l e u) =
     (if l \<noteq> [] then py_upper L (py_strip_chars (U ''()'') (py_strip l)) else [])"
  by (simp add: li_letter_def find_tag_def descendants_of_def item_descendants first_of_def
      get_text_def)

lemma py_join_one: "py_join s (filter (\<lambda>x. x \<noteq> []) [x]) = x"
  by simp

lemma item_en: "li_en_txt (A, option_item m a l e u) = clean (py_strip e)"
  by (simp add: li_en_txt_def select_one_class_tag_def select_class_tag_def descendants_of_def
      item_descendants first_of_def text_or_empty_def get_text_stripped_def has_class_def)

lemma item_ur:
  "\<not> list_ex (has_class (U ''Ur'')) A \<Longrightarrow> li_ur_txt (A, option_item m a l e u) = clean (py_strip u)"
  by (simp add: li_ur_txt_def select_one_class_tag_def select_class_tag_def descendants_of_def
      item_descendants first_of_def text_or_empty_def get_text_stripped_def has_class_def item_class)

lemma item_marked: "marked (A, option_item m a l e u) \<longleftrightarrow> m"
  by (simp add: marked_def item_class)

lemma item_thiscorrect:
  "thiscorrect (A, option_item m a l e u) =
     (case map_of a (U ''thiscorrect'') of None \<Rightarrow> [] | Some tc \<Rightarrow> tc)"
  by (simp add: thiscorrect_def item_get)

lemma is_item_option_item: "is_item (option_item m a l e u)"
  unfolding is_item_def by (intro exI) (rule refl)

lemma item_no_row:
  "is_item k \<Longrightarrow>
     filter (\<lambda>d. has_class (U ''TableHover'') (snd d) \<and> Q d) ((A, k) # descendants A k) = []"
  by (auto simp: is_item_def item_descendants has_class_def item_class)

lemma item_is_li:
  "is_item k \<Longrightarrow>
     filter (\<lambda>d. is_tag (U ''li'') (snd d) \<and> (case fst d of [] \<Rightarrow> False | q # _ \<Rightarrow> is_tag (U ''ul'') q))
       ((mcq_ul items # A, k) # descendants (mcq_ul items # A) k) = [(mcq_ul items # A, k)]"
  by (auto simp: is_item_def item_descendants item_tag mcq_ul_def)

lemma ul_descendants:
  "descendants A (mcq_ul items) =
     concat (map (\<lambda>k. (mcq_ul items # A, k) # descendants (mcq_ul items # A) k) items)"
  by (simp add: mcq_ul_def)

lemma ul_no_row:
  assumes "list_all is_item items"
  shows "filter (\<lambda>d. has_class (U ''TableHover'') (snd d) \<and> Q d) (descendants A (mcq_ul items)) = []"
proof -
  have "filter (\<lambda>d. has_class (U ''TableHover'') (snd d) \<and> Q d) (descendants A (mcq_ul items))
      = concat (map (\<lambda>k. []) items)"
    unfolding ul_descendants
  proof (rule filter_concat_map)
    fix k assume "k \<in> set items"
    with assms have "is_item k" by (simp add: list_all_iff)
    then show "filter (\<lambda>d. has_class (U ''TableHover'') (snd d) \<and> Q d)
        ((mcq_ul items # A, k) # descendants (mcq_ul items # A) k) = []"
      by (rule item_no_row)
  qed
  then show ?thesis by simp
qed

lemma ul_items:
  assumes "list_all is_item items"
  shows "filter (\<lambda>d. is_tag (U ''li'') (snd d) \<and> (case fst d of [] \<Rightarrow> False | q # _ \<Rightarrow> is_tag (U ''ul'') q))
       (descendants A (mcq_ul items)) = map (\<lambda>k. (mcq_ul items # A, k)) items"
proof -
  have "filter (\<lambda>d. is_tag (U ''li'') (snd d) \<and> (case fst d of [] \<Rightarrow> False | q # _ \<Rightarrow> is_tag (U ''ul'') q))
       (descendants A (mcq_ul items)) = concat (map (\<lambda>k. [(mcq_ul items # A, k)]) items)"
    unfolding ul_descendants
  proof (rule filter_concat_map)
    fix k assume "k \<in> set items"
    with assms have "is_item k" by (simp add: list_all_iff)
    then show "filter (\<lambda>d. is_tag (U ''li'') (snd d) \<and> (case fst d of [] \<Rightarrow> False | q # _ \<Rightarrow> is_tag (U ''ul'') q))
        ((mcq_ul items # A, k) # descendants (mcq_ul items # A) k) = [(mcq_ul items # A, k)]"
      by (rule item_is_li)
  qed
  then show ?thesis by simp
qed

lemma row_descendants:
  "descendants A (mcq_row ra items) =
     [(mcq_row ra items # A, Tag (U ''div'') (Some [U ''EnglishDiv'']) []
          [Tag (U ''p'') None [] [NavigableString (U ''Which?'')]]),
      (Tag (U ''div'') (Some [U ''EnglishDiv'']) []
          [Tag (U ''p'') None [] [NavigableString (U ''Which?'')]] # mcq_row ra items # A,
         Tag (U ''p'') None [] [NavigableString (U ''Which?'')]),
      (Tag (U ''p'') None [] [NavigableString (U ''Which?'')] #
         Tag (U ''div'') (Some [U ''EnglishDiv'']) []
          [Tag (U ''p'') None [] [NavigableString (U ''Which?'')]] # mcq_row ra items # A,
         NavigableString (U ''Which?'')),
      (mcq_row ra items # A, Tag (U ''div'') (Some [U ''UrduDiv'']) []
          [Tag (U ''p'') None [] [NavigableString (U ''Kaun?'')]]),
      (Tag (U ''div'') (Some [U ''UrduDiv'']) []
          [Tag (U ''p'') None [] [NavigableString (U ''Kaun?'')]] # mcq_row ra items # A,
         Tag (U ''p'') None [] [NavigableString (U ''Kaun?'')]),
      (Tag (U ''p'') None [] [NavigableString (U ''Kaun?'')] #
         Tag (U ''div'') (Some [U ''UrduDiv'']) []
          [Tag (U ''p'') None [] [NavigableString (U ''Kaun?'')]] # mcq_row ra items # A,
         NavigableString (U ''Kaun?'')),
      (mcq_row ra items # A, mcq_ul items)]
     @ descendants (mcq_row ra items # A) (mcq_ul items)"
  by (simp add: mcq_row_def)

lemma row_class: "class_list (mcq_row ra items) = [U ''TableHover'']"
  by (simp add: mcq_row_def)


lemma ul_class: "class_list (mcq_ul items) = []"
  by (simp add: mcq_ul_def)

lemma ul_tag: "is_tag t (mcq_ul items) \<longleftrightarrow> t = U ''ul''"
  by (auto simp: mcq_ul_def)

lemma box_class: "class_list (mcq_box ra items) = []"
  by (simp add: mcq_box_def)

lemma box_id: "has_id (U ''chooseQuestionsByChapterIDs'') (mcq_box ra items)"
  by (simp add: mcq_box_def has_id_def)

lemma page_class: "class_list (mcq_page ra items) = []"
  by (simp add: mcq_page_def)

lemma page_id: "\<not> has_id i (mcq_page ra items)"
  by (simp add: mcq_page_def has_id_def)

lemma page_descendants:
  "descendants [] (mcq_page ra items) =
     ([mcq_page ra items], mcq_box ra items) #
     ([mcq_box ra items, mcq_page ra items], mcq_row ra items) #
     descendants [mcq_box ra items, mcq_page ra items] (mcq_row ra items)"
  by (simp add: mcq_page_def mcq_box_def)

lemma page_rows:
  assumes "list_all is_item items"
  shows "select_rows (mcq_page ra items)
     = [([mcq_box ra items, mcq_page ra items], mcq_row ra items)]"
  unfolding select_rows_def select_id_class_def descendants_of_def fst_conv snd_conv
    page_descendants row_descendants filter.simps filter_append ul_no_row [OF assms]
  using box_id [of ra items] by (simp add: has_class_def box_class row_class ul_class)

lemma row_items:
  assumes "list_all is_item items"
  shows "select_child (U ''ul'') (U ''li'') (A, mcq_row ra items)
     = map (\<lambda>k. (mcq_ul items # mcq_row ra items # A, k)) items"
  unfolding select_child_def descendants_of_def fst_conv snd_conv row_descendants
    filter.simps filter_append ul_items [OF assms]
  by (simp add: ul_tag mcq_row_def)

lemma page_no_ur:
  "\<not> list_ex (has_class (U ''Ur''))
       [mcq_ul items, mcq_row ra items, mcq_box ra items, mcq_page ra items]"
  by (simp add: has_class_def ul_class row_class box_class page_class)

lemma path_no_ur: "\<not> list_ex (has_class (U ''Ur'')) (page_path ra items)"
  unfolding page_path_def by (rule page_no_ur)

lemma page_rows_len: "list_all is_item items \<Longrightarrow> length (select_rows (mcq_page ra items)) = 1"
  by (simp add: page_rows)


lemma page_items:
  assumes "list_all is_item items"
  shows "select_child (U ''ul'') (U ''li'') (select_rows (mcq_page ra items) ! 0)
     = map (Pair (page_path ra items)) items"
  unfolding page_rows [OF assms] nth_Cons_0 row_items [OF assms] page_path_def ..

lemma item_ur_page:
  "li_ur_txt (page_path ra items, option_item m a l e u) = clean (py_strip u)"
  by (rule item_ur) (rule path_no_ur)

lemma plain_soup: "BeautifulSoup (plain_libs doc) html = doc"
  by (simp add: plain_libs_def)

lemmas eval_str = py_strip_def py_strip_chars_def lstrip_where_def rstrip_where_def py_isspace_def
  py_replace_def clean_def NBSP_def SPACE_def py_upper_def is_ascii_def ascii_upper_def

lemmas eval_item = item_letter item_en item_ur_page item_marked item_thiscorrect

subsection \<open>Options of the same letter\<close>

text \<open>
  C10. When one or more list items of a row have the letter \<open>X\<close>, one of A to D, the slot of
  \<open>X\<close> holds the English and the Urdu text of the last of them in document order.
\<close>

theorem duplicate_label_last_wins:
  assumes "i < length (select_rows (BeautifulSoup L html_text))"
    and "m = extract_mcqs L html_text ! i"
    and "js = filter (\<lambda>li. li_letter L li = X)
                (select_child (U ''ul'') (U ''li'') (select_rows (BeautifulSoup L html_text) ! i))"
    and "js \<noteq> []"
  shows "(X = U ''A'' \<longrightarrow> option_a_en m = li_en_txt (last js) \<and> option_a_ur m = li_ur_txt (last js)) \<and>
         (X = U ''B'' \<longrightarrow> option_b_en m = li_en_txt (last js) \<and> option_b_ur m = li_ur_txt (last js)) \<and>
         (X = U ''C'' \<longrightarrow> option_c_en m = li_en_txt (last js) \<and> option_c_ur m = li_ur_txt (last js)) \<and>
         (X = U ''D'' \<longrightarrow> option_d_en m = li_en_txt (last js) \<and> option_d_ur m = li_ur_txt (last js))"
proof -
  let ?row = "select_rows (BeautifulSoup L html_text) ! i"
  have m: "m = mcq_of_row L ?row" using assms(1,2) by (simp add: extract_mcqs_nth)
  have slot: "fst (scan_options L ?row) X
      = Some \<lparr>en = li_en_txt (last js), ur = li_ur_txt (last js)\<rparr>" if "X \<in> letters"
    using that assms(3,4) by (rule scan_options_slot)
  have a: "option_a_en m = li_en_txt (last js) \<and> option_a_ur m = li_ur_txt (last js)"
    if "X = U ''A''"
    using slot that unfolding m mcq_of_row_options letters_def by simp
  have b: "option_b_en m = li_en_txt (last js) \<and> option_b_ur m = li_ur_txt (last js)"
    if "X = U ''B''"
    using slot that unfolding m mcq_of_row_options letters_def by simp
  have c: "option_c_en m = li_en_txt (last js) \<and> option_c_ur m = li_ur_txt (last js)"
    if "X = U ''C''"
    using slot that unfolding m mcq_of_row_options letters_def by simp
  have d: "option_d_en m = li_en_txt (last js) \<and> option_d_ur m = li_ur_txt (last js)"
    if "X = U ''D''"
    using slot that unfolding m mcq_of_row_options letters_def by simp
  from a b c d show ?thesis by blast
qed

lemma fallback_page_rows: "length (select_rows (BeautifulSoup (plain_libs fallback_page) [])) = 1"
  unfolding plain_soup fallback_page_def
  by (rule page_rows_len) (simp add: is_item_option_item)

lemma fallback_page_items:
  "select_child (U ''ul'') (U ''li'') (select_rows (BeautifulSoup (plain_libs fallback_page) []) ! 0)
     = map (Pair (page_path [] [option_item True [(U ''thiscorrect'', U ''12-(c)'')] [] (U ''x'') (U ''y''),
          option_item False [] (U ''(A)'') (U ''first'') (U ''f''),
          option_item False [] (U '' (a) '') (U ''second'') (U ''s'')]))
        [option_item True [(U ''thiscorrect'', U ''12-(c)'')] [] (U ''x'') (U ''y''),
          option_item False [] (U ''(A)'') (U ''first'') (U ''f''),
          option_item False [] (U '' (a) '') (U ''second'') (U ''s'')]"
  unfolding plain_soup fallback_page_def
  by (rule page_items) (simp add: is_item_option_item)

theorem duplicate_label_last_wins_witness:
  "0 < length (select_rows (BeautifulSoup (plain_libs fallback_page) [])) \<and>
   length (filter (\<lambda>li. li_letter (plain_libs fallback_page) li = U ''A'')
      (select_child (U ''ul'') (U ''li'')
         (select_rows (BeautifulSoup (plain_libs fallback_page) []) ! 0))) = 2 \<and>
   option_a_en (extract_mcqs (plain_libs fallback_page) [] ! 0) = U ''second'' \<and>
   option_a_ur (extract_mcqs (plain_libs fallback_page) [] ! 0) = U ''s''"
proof -
  let ?js = "filter (\<lambda>li. li_letter (plain_libs fallback_page) li = U ''A'')
      (select_child (U ''ul'') (U ''li'')
         (select_rows (BeautifulSoup (plain_libs fallback_page) []) ! 0))"
  have h: "0 < length (select_rows (BeautifulSoup (plain_libs fallback_page) []))"
    by (simp add: fallback_page_rows)
  have n: "length ?js = 2"
    unfolding fallback_page_items by (simp add: eval_item eval_str)
  then have ne: "?js \<noteq> []" by auto
  have e: "li_en_txt (last ?js) = U ''second''" "li_ur_txt (last ?js) = U ''s''"
    unfolding fallback_page_items by (simp_all add: eval_item eval_str)
  from duplicate_label_last_wins [OF h refl refl ne]
  have "option_a_en (extract_mcqs (plain_libs fallback_page) [] ! 0) = li_en_txt (last ?js) \<and>
        option_a_ur (extract_mcqs (plain_libs fallback_page) [] ! 0) = li_ur_txt (last ?js)"
    by (rule conjunct1 [THEN mp]) (rule refl)
  with h n e show ?thesis by simp
qed

subsection \<open>The correct answer\<close>

lemma item_answer_unmarked: "\<not> marked li \<Longrightarrow> item_answer L li = None"
  by (simp add: item_answer_def)



lemma scan_options_last:
  assumes "select_child (U ''ul'') (U ''li'') row = pre @ li # post"
    and "item_answer L li = Some y"
    and "list_all (\<lambda>k. item_answer L k = None) post"
  shows "snd (scan_options L row) = y"
  unfolding scan_options_def assms(1)
  by (rule foldl_last_answer [OF assms(2)]) (use assms(3) in \<open>simp add: list_all_iff\<close>)




lemmas eval_answer = item_answer_def in_A_D_def ci_eq_def


subsection \<open>The values of the correct option\<close>

lemma foldl_correct_in:
  assumes "snd st \<in> insert [] letters"
    and "\<And>li. li \<in> set lis \<Longrightarrow> marked li \<Longrightarrow> li_letter L li \<in> insert [] letters"
  shows "snd (foldl (li_step L) st lis) \<in> insert [] letters"
  using assms
proof (induction lis arbitrary: st)
  case Nil
  then show ?case by simp
next
  case (Cons li lis)
  have "snd (li_step L st li) \<in> insert [] letters"
    by (rule li_step_correct_in [OF Cons.prems(1)]) (rule Cons.prems(2), simp_all)
  then show ?case using Cons.IH Cons.prems(2) by simp
qed

lemma option_e_rows: "length (select_rows (BeautifulSoup (plain_libs option_e) [])) = 1"
  unfolding plain_soup option_e_def
  by (rule page_rows_len) (simp add: is_item_option_item)

lemma option_e_items:
  "select_child (U ''ul'') (U ''li'') (select_rows (BeautifulSoup (plain_libs option_e) []) ! 0)
     = map (Pair (page_path [(U ''id'', U ''M2'')] [option_item True [] (U ''(E)'') (U ''eps'') (U ''ye'')]))
        [option_item True [] (U ''(E)'') (U ''eps'') (U ''ye'')]"
  unfolding plain_soup option_e_def
  by (rule page_items) (simp add: is_item_option_item)

lemma four_options_rows: "length (select_rows (BeautifulSoup (plain_libs four_options) [])) = 1"
  unfolding plain_soup four_options_def
  by (rule page_rows_len) (simp add: is_item_option_item)

lemma four_options_items:
  "select_child (U ''ul'') (U ''li'') (select_rows (BeautifulSoup (plain_libs four_options) []) ! 0)
     = map (Pair (page_path [(U ''id'', U ''M1'')]
          [option_item False [] (U ''(B)'') (U ''beta'') (U ''bey''),
           option_item True [(U ''thiscorrect'', U ''1-(A)'')] (U ''(A)'') (U ''alpha'') (U ''alif''),
           option_item False [] (U ''(D)'') (U ''delta'') (U ''dal''),
           option_item False [] (U ''(C)'') (U ''gamma'') (U ''jim'')]))
        [option_item False [] (U ''(B)'') (U ''beta'') (U ''bey''),
         option_item True [(U ''thiscorrect'', U ''1-(A)'')] (U ''(A)'') (U ''alpha'') (U ''alif''),
         option_item False [] (U ''(D)'') (U ''delta'') (U ''dal''),
         option_item False [] (U ''(C)'') (U ''gamma'') (U ''jim'')]"
  unfolding plain_soup four_options_def
  by (rule page_items) (simp add: is_item_option_item)

text \<open>
  C2 as the specification words it fails: the letter of a marked item is recorded as it
  is, so the label \<^verbatim>\<open>(E)\<close> gives the correct option \<^verbatim>\<open>E\<close>.
\<close>

theorem correct_option_e:
  "length (extract_mcqs (plain_libs option_e) []) = 1 \<and>
   correct_option (extract_mcqs (plain_libs option_e) [] ! 0) = U ''E'' \<and>
   correct_option (extract_mcqs (plain_libs option_e) [] ! 0)
     \<notin> {U ''A'', U ''B'', U ''C'', U ''D'', []}"
proof -
  have r: "length (select_rows (BeautifulSoup (plain_libs option_e) [])) = 1"
    by (rule option_e_rows)
  then have l: "length (extract_mcqs (plain_libs option_e) []) = 1"
    by (simp add: extract_mcqs_def)
  from r have "correct_option (extract_mcqs (plain_libs option_e) [] ! 0)
      = snd (scan_options (plain_libs option_e)
          (select_rows (BeautifulSoup (plain_libs option_e) []) ! 0))"
    by (simp add: extract_mcqs_nth mcq_of_row_correct)
  also have "\<dots> = U ''E''"
    unfolding scan_options_def option_e_items
    by (simp add: li_step_snd eval_answer eval_item eval_str)
  finally have e: "correct_option (extract_mcqs (plain_libs option_e) [] ! 0) = U ''E''" .
  from l e show ?thesis by simp
qed

text \<open>
  C2, as it holds. When the letter of every marked item of a row is empty or one of A to D,
  the correct option of the record is one of A to D or empty.
\<close>

theorem correct_option_range:
  assumes "i < length (select_rows (BeautifulSoup L html_text))"
    and "m = extract_mcqs L html_text ! i"
    and "items = select_child (U ''ul'') (U ''li'') (select_rows (BeautifulSoup L html_text) ! i)"
    and "\<And>li. li \<in> set items \<Longrightarrow> marked li \<Longrightarrow>
           li_letter L li \<in> {U ''A'', U ''B'', U ''C'', U ''D'', []}"
  shows "correct_option m \<in> {U ''A'', U ''B'', U ''C'', U ''D'', []}"
proof -
  have s: "insert [] letters = {U ''A'', U ''B'', U ''C'', U ''D'', []}"
    by (auto simp: letters_def)
  have "snd (foldl (li_step L) (opts_init, []) items) \<in> insert [] letters"
  proof (rule foldl_correct_in)
    show "snd (opts_init, []::ustring) \<in> insert [] letters" by simp
  next
    fix li assume "li \<in> set items" "marked li"
    then show "li_letter L li \<in> insert [] letters" unfolding s by (rule assms(4))
  qed
  then show ?thesis
    using assms(1,2) unfolding s assms(3)
    by (simp add: extract_mcqs_nth mcq_of_row_correct scan_options_def)
qed

theorem correct_option_range_witness:
  "0 < length (select_rows (BeautifulSoup (plain_libs four_options) [])) \<and>
   map (li_letter (plain_libs four_options))
     (filter marked (select_child (U ''ul'') (U ''li'')
        (select_rows (BeautifulSoup (plain_libs four_options) []) ! 0))) = [U ''A''] \<and>
   correct_option (extract_mcqs (plain_libs four_options) [] ! 0)
     \<in> {U ''A'', U ''B'', U ''C'', U ''D'', []}"
proof -
  let ?L = "plain_libs four_options"
  let ?items = "select_child (U ''ul'') (U ''li'') (select_rows (BeautifulSoup ?L []) ! 0)"
  have h: "0 < length (select_rows (BeautifulSoup ?L []))" by (simp add: four_options_rows)
  have f: "map (li_letter ?L) (filter marked ?items) = [U ''A'']"
    unfolding four_options_items by (simp add: eval_item eval_str)
  have p: "li_letter ?L li \<in> {U ''A'', U ''B'', U ''C'', U ''D'', []}"
    if "li \<in> set ?items" "marked li" for li
  proof -
    from that have "li \<in> set (filter marked ?items)" by simp
    then have "li_letter ?L li \<in> li_letter ?L ` set (filter marked ?items)"
      by (rule imageI)
    then show ?thesis unfolding set_map [symmetric] f by simp
  qed
  from correct_option_range [OF h refl refl p] h f show ?thesis by (intro conjI)
qed

subsection \<open>Four options in any order\<close>

lemma li_letter_label:
  "li_letter L li =
     (if li_label li \<noteq> [] then py_upper L (py_strip_chars (U ''()'') (py_strip (li_label li)))
      else [])"
  by (simp add: li_letter_def li_label_def split: option.splits)

lemma label_letter:
  "li_label li = U ''(A)'' \<Longrightarrow> li_letter L li = U ''A''"
  "li_label li = U ''(B)'' \<Longrightarrow> li_letter L li = U ''B''"
  "li_label li = U ''(C)'' \<Longrightarrow> li_letter L li = U ''C''"
  "li_label li = U ''(D)'' \<Longrightarrow> li_letter L li = U ''D''"
  by (simp_all add: li_letter_label eval_str)

lemma distinct_map_filter:
  "distinct (map f xs) \<Longrightarrow> x \<in> set xs \<Longrightarrow> filter (\<lambda>y. f y = f x) xs = [x]"
proof (induction xs)
  case Nil
  then show ?case by simp
next
  case (Cons a xs)
  show ?case
  proof (cases "a = x")
    case True
    from Cons.prems(1) have "f x \<notin> f ` set xs" using True by simp
    then have "filter (\<lambda>y. f y = f x) xs = []"
      unfolding filter_empty_conv by (metis imageI)
    with True show ?thesis by simp
  next
    case False
    with Cons.prems have x: "x \<in> set xs" and d: "distinct (map f xs)" by simp_all
    from Cons.prems(1) x have "f a \<noteq> f x" by auto
    with Cons.IH [OF d x] show ?thesis by simp
  qed
qed

lemma four_labels_distinct:
  assumes "length items = 4"
    and "set (map li_label items) = {U ''(A)'', U ''(B)'', U ''(C)'', U ''(D)''}"
  shows "distinct (map li_label items)"
proof -
  have "card (set (map li_label items)) = 4" unfolding assms(2) by simp
  with assms(1) show ?thesis by (simp add: card_distinct)
qed

lemma four_labels_letter:
  assumes "set (map li_label items) = {U ''(A)'', U ''(B)'', U ''(C)'', U ''(D)''}"
    and "k \<in> set items"
  shows "(li_letter L k = U ''A'' \<longleftrightarrow> li_label k = U ''(A)'') \<and>
         (li_letter L k = U ''B'' \<longleftrightarrow> li_label k = U ''(B)'') \<and>
         (li_letter L k = U ''C'' \<longleftrightarrow> li_label k = U ''(C)'') \<and>
         (li_letter L k = U ''D'' \<longleftrightarrow> li_label k = U ''(D)'') \<and>
         li_letter L k \<noteq> []"
proof -
  from assms(2) have "li_label k \<in> set (map li_label items)" by simp
  then have "li_label k = U ''(A)'' \<or> li_label k = U ''(B)'' \<or> li_label k = U ''(C)'' \<or>
      li_label k = U ''(D)''"
    unfolding assms(1) by simp
  then show ?thesis
  proof (elim disjE)
    assume l: "li_label k = U ''(A)''"
    from label_letter(1) [OF l, of L] l show ?thesis by simp
  next
    assume l: "li_label k = U ''(B)''"
    from label_letter(2) [OF l, of L] l show ?thesis by simp
  next
    assume l: "li_label k = U ''(C)''"
    from label_letter(3) [OF l, of L] l show ?thesis by simp
  next
    assume l: "li_label k = U ''(D)''"
    from label_letter(4) [OF l, of L] l show ?thesis by simp
  qed
qed

lemma four_labels_slot:
  assumes "length items = 4"
    and "set (map li_label items) = {U ''(A)'', U ''(B)'', U ''(C)'', U ''(D)''}"
    and "li \<in> set items"
    and "X \<in> letters"
    and "li_letter L li = X"
    and "\<And>k. k \<in> set items \<Longrightarrow> (li_letter L k = X \<longleftrightarrow> li_label k = li_label li)"
  shows "filter (\<lambda>k. li_letter L k = X) items = [li]"
proof -
  have "filter (\<lambda>k. li_letter L k = X) items = filter (\<lambda>k. li_label k = li_label li) items"
    by (rule filter_cong [OF refl]) (rule assms(6))
  also have "\<dots> = [li]"
    by (rule distinct_map_filter [OF four_labels_distinct [OF assms(1,2)] assms(3)])
  finally show ?thesis .
qed

text \<open>
  C1. A row has four list items, whose labels are \<^verbatim>\<open>(A)\<close>, \<^verbatim>\<open>(B)\<close>, \<^verbatim>\<open>(C)\<close> and \<^verbatim>\<open>(D)\<close> in some
  order, and \<open>c\<close> is the only one of them with the marker class. Then the texts of each item
  are in the slot its label names, and the correct option is the letter of the label of \<open>c\<close>.
\<close>

theorem four_options_by_letter:
  assumes "i < length (select_rows (BeautifulSoup L html_text))"
    and "m = extract_mcqs L html_text ! i"
    and "items = select_child (U ''ul'') (U ''li'') (select_rows (BeautifulSoup L html_text) ! i)"
    and "length items = 4"
    and "set (map li_label items) = {U ''(A)'', U ''(B)'', U ''(C)'', U ''(D)''}"
    and "filter marked items = [c]"
  shows "\<forall>li \<in> set items.
     (li_label li = U ''(A)'' \<longrightarrow> option_a_en m = li_en_txt li \<and> option_a_ur m = li_ur_txt li \<and>
        (li = c \<longrightarrow> correct_option m = U ''A'')) \<and>
     (li_label li = U ''(B)'' \<longrightarrow> option_b_en m = li_en_txt li \<and> option_b_ur m = li_ur_txt li \<and>
        (li = c \<longrightarrow> correct_option m = U ''B'')) \<and>
     (li_label li = U ''(C)'' \<longrightarrow> option_c_en m = li_en_txt li \<and> option_c_ur m = li_ur_txt li \<and>
        (li = c \<longrightarrow> correct_option m = U ''C'')) \<and>
     (li_label li = U ''(D)'' \<longrightarrow> option_d_en m = li_en_txt li \<and> option_d_ur m = li_ur_txt li \<and>
        (li = c \<longrightarrow> correct_option m = U ''D''))"
proof
  fix li assume li: "li \<in> set items"
  let ?row = "select_rows (BeautifulSoup L html_text) ! i"
  have m: "m = mcq_of_row L ?row" using assms(1,2) by (simp add: extract_mcqs_nth)
  note fl = four_labels_letter [OF assms(5)]
  have slot: "fst (scan_options L ?row) X = Some \<lparr>en = li_en_txt li, ur = li_ur_txt li\<rparr>"
    if X: "X \<in> letters" "li_letter L li = X"
      and eq: "\<And>k. k \<in> set items \<Longrightarrow> (li_letter L k = X \<longleftrightarrow> li_label k = li_label li)" for X
  proof -
    have f: "filter (\<lambda>k. li_letter L k = X) items = [li]"
      by (rule four_labels_slot [OF assms(4,5) li X eq])
    have f': "[li] = filter (\<lambda>k. li_letter L k = X) (select_child (U ''ul'') (U ''li'') ?row)"
      using f unfolding assms(3) by (rule sym)
    have "fst (scan_options L ?row) X
        = Some \<lparr>en = li_en_txt (last [li]), ur = li_ur_txt (last [li])\<rparr>"
      by (rule scan_options_slot [OF X(1) f']) simp
    then show ?thesis by simp
  qed
  have correct: "correct_option m = li_letter L c"
  proof -
    from assms(6) obtain pre post where s: "items = pre @ c # post"
      and pre: "\<forall>u \<in> set pre. \<not> marked u" and c: "marked c" and post: "[] = filter marked post"
      unfolding filter_eq_Cons_iff by blast
    from s have cin: "c \<in> set items" by simp
    from fl [OF cin, of L] have ne: "li_letter L c \<noteq> []" by simp
    with c have a: "item_answer L c = Some (li_letter L c)" by (simp add: item_answer_def)
    from post have "\<not> list_ex marked post"
      by (metis filter_empty_conv list_ex_iff)
    then have n: "list_all (\<lambda>k. item_answer L k = None) post"
      by (simp add: list_all_iff list_ex_iff item_answer_unmarked)
    have "snd (scan_options L ?row) = li_letter L c"
      by (rule scan_options_last [OF s [unfolded assms(3)] a n])
    then show ?thesis unfolding m by (simp add: mcq_of_row_correct)
  qed
  have a: "option_a_en m = li_en_txt li \<and> option_a_ur m = li_ur_txt li \<and>
        (li = c \<longrightarrow> correct_option m = U ''A'')" if l: "li_label li = U ''(A)''"
  proof -
    have x: "li_letter L li = U ''A''" by (rule label_letter(1) [OF l])
    have "fst (scan_options L ?row) (U ''A'') = Some \<lparr>en = li_en_txt li, ur = li_ur_txt li\<rparr>"
    proof (rule slot [OF _ x])
      show "U ''A'' \<in> letters" by (simp add: letters_def)
    next
      fix k assume "k \<in> set items"
      from fl [OF this, of L] show "li_letter L k = U ''A'' \<longleftrightarrow> li_label k = li_label li"
        unfolding l by simp
    qed
    then show ?thesis using x correct unfolding m mcq_of_row_options by auto
  qed
  have b: "option_b_en m = li_en_txt li \<and> option_b_ur m = li_ur_txt li \<and>
        (li = c \<longrightarrow> correct_option m = U ''B'')" if l: "li_label li = U ''(B)''"
  proof -
    have x: "li_letter L li = U ''B''" by (rule label_letter(2) [OF l])
    have "fst (scan_options L ?row) (U ''B'') = Some \<lparr>en = li_en_txt li, ur = li_ur_txt li\<rparr>"
    proof (rule slot [OF _ x])
      show "U ''B'' \<in> letters" by (simp add: letters_def)
    next
      fix k assume "k \<in> set items"
      from fl [OF this, of L] show "li_letter L k = U ''B'' \<longleftrightarrow> li_label k = li_label li"
        unfolding l by simp
    qed
    then show ?thesis using x correct unfolding m mcq_of_row_options by auto
  qed
  have c: "option_c_en m = li_en_txt li \<and> option_c_ur m = li_ur_txt li \<and>
        (li = c \<longrightarrow> correct_option m = U ''C'')" if l: "li_label li = U ''(C)''"
  proof -
    have x: "li_letter L li = U ''C''" by (rule label_letter(3) [OF l])
    have "fst (scan_options L ?row) (U ''C'') = Some \<lparr>en = li_en_txt li, ur = li_ur_txt li\<rparr>"
    proof (rule slot [OF _ x])
      show "U ''C'' \<in> letters" by (simp add: letters_def)
    next
      fix k assume "k \<in> set items"
      from fl [OF this, of L] show "li_letter L k = U ''C'' \<longleftrightarrow> li_label k = li_label li"
        unfolding l by simp
    qed
    then show ?thesis using x correct unfolding m mcq_of_row_options by auto
  qed
  have d: "option_d_en m = li_en_txt li \<and> option_d_ur m = li_ur_txt li \<and>
        (li = c \<longrightarrow> correct_option m = U ''D'')" if l: "li_label li = U ''(D)''"
  proof -
    have x: "li_letter L li = U ''D''" by (rule label_letter(4) [OF l])
    have "fst (scan_options L ?row) (U ''D'') = Some \<lparr>en = li_en_txt li, ur = li_ur_txt li\<rparr>"
    proof (rule slot [OF _ x])
      show "U ''D'' \<in> letters" by (simp add: letters_def)
    next
      fix k assume "k \<in> set items"
      from fl [OF this, of L] show "li_letter L k = U ''D'' \<longleftrightarrow> li_label k = li_label li"
        unfolding l by simp
    qed
    then show ?thesis using x correct unfolding m mcq_of_row_options by auto
  qed
  from a b c d show "(li_label li = U ''(A)'' \<longrightarrow> option_a_en m = li_en_txt li \<and> option_a_ur m = li_ur_txt li \<and>
        (li = c \<longrightarrow> correct_option m = U ''A'')) \<and>
     (li_label li = U ''(B)'' \<longrightarrow> option_b_en m = li_en_txt li \<and> option_b_ur m = li_ur_txt li \<and>
        (li = c \<longrightarrow> correct_option m = U ''B'')) \<and>
     (li_label li = U ''(C)'' \<longrightarrow> option_c_en m = li_en_txt li \<and> option_c_ur m = li_ur_txt li \<and>
        (li = c \<longrightarrow> correct_option m = U ''C'')) \<and>
     (li_label li = U ''(D)'' \<longrightarrow> option_d_en m = li_en_txt li \<and> option_d_ur m = li_ur_txt li \<and>
        (li = c \<longrightarrow> correct_option m = U ''D''))"
    by blast
qed

lemma item_label: "li_label (A, option_item m a l e u) = l"
  by (simp add: li_label_def find_tag_def descendants_of_def item_descendants first_of_def
      get_text_def)

theorem four_options_by_letter_witness:
  "0 < length (select_rows (BeautifulSoup (plain_libs four_options) [])) \<and>
   map li_label (select_child (U ''ul'') (U ''li'')
        (select_rows (BeautifulSoup (plain_libs four_options) []) ! 0))
     = [U ''(B)'', U ''(A)'', U ''(D)'', U ''(C)''] \<and>
   map marked (select_child (U ''ul'') (U ''li'')
        (select_rows (BeautifulSoup (plain_libs four_options) []) ! 0))
     = [False, True, False, False] \<and>
   option_a_en (extract_mcqs (plain_libs four_options) [] ! 0) = U ''alpha'' \<and>
   option_a_ur (extract_mcqs (plain_libs four_options) [] ! 0) = U ''alif'' \<and>
   option_b_en (extract_mcqs (plain_libs four_options) [] ! 0) = U ''beta'' \<and>
   option_b_ur (extract_mcqs (plain_libs four_options) [] ! 0) = U ''bey'' \<and>
   option_c_en (extract_mcqs (plain_libs four_options) [] ! 0) = U ''gamma'' \<and>
   option_c_ur (extract_mcqs (plain_libs four_options) [] ! 0) = U ''jim'' \<and>
   option_d_en (extract_mcqs (plain_libs four_options) [] ! 0) = U ''delta'' \<and>
   option_d_ur (extract_mcqs (plain_libs four_options) [] ! 0) = U ''dal'' \<and>
   correct_option (extract_mcqs (plain_libs four_options) [] ! 0) = U ''A''"
proof -
  let ?L = "plain_libs four_options"
  let ?items = "select_child (U ''ul'') (U ''li'') (select_rows (BeautifulSoup ?L []) ! 0)"
  let ?m = "extract_mcqs ?L [] ! 0"
  have h: "0 < length (select_rows (BeautifulSoup ?L []))" by (simp add: four_options_rows)
  have "\<exists>b a d c. ?items = [b, a, d, c] \<and>
      li_label b = U ''(B)'' \<and> li_en_txt b = U ''beta'' \<and> li_ur_txt b = U ''bey'' \<and> \<not> marked b \<and>
      li_label a = U ''(A)'' \<and> li_en_txt a = U ''alpha'' \<and> li_ur_txt a = U ''alif'' \<and> marked a \<and>
      li_label d = U ''(D)'' \<and> li_en_txt d = U ''delta'' \<and> li_ur_txt d = U ''dal'' \<and> \<not> marked d \<and>
      li_label c = U ''(C)'' \<and> li_en_txt c = U ''gamma'' \<and> li_ur_txt c = U ''jim'' \<and> \<not> marked c"
    unfolding four_options_items by (simp add: eval_item item_label eval_str)
  then obtain b a d c where i: "?items = [b, a, d, c]"
    and b: "li_label b = U ''(B)''" "li_en_txt b = U ''beta''" "li_ur_txt b = U ''bey''" "\<not> marked b"
    and a: "li_label a = U ''(A)''" "li_en_txt a = U ''alpha''" "li_ur_txt a = U ''alif''" "marked a"
    and d: "li_label d = U ''(D)''" "li_en_txt d = U ''delta''" "li_ur_txt d = U ''dal''" "\<not> marked d"
    and c: "li_label c = U ''(C)''" "li_en_txt c = U ''gamma''" "li_ur_txt c = U ''jim''" "\<not> marked c"
    by blast
  have l: "map li_label ?items = [U ''(B)'', U ''(A)'', U ''(D)'', U ''(C)'']"
    unfolding i using a(1) b(1) c(1) d(1) by simp
  have k: "map marked ?items = [False, True, False, False]"
    unfolding i using a(4) b(4) c(4) d(4) by simp
  have n: "length ?items = 4" unfolding i by simp
  have s: "set (map li_label ?items) = {U ''(A)'', U ''(B)'', U ''(C)'', U ''(D)''}"
    unfolding l by auto
  have f: "filter marked ?items = [a]"
    unfolding i using a(4) b(4) c(4) d(4) by simp
  note t = four_options_by_letter [OF h refl refl n s f, unfolded i, simplified]
  from t a b c d have
    "option_a_en ?m = U ''alpha''" "option_a_ur ?m = U ''alif''"
    "option_b_en ?m = U ''beta''" "option_b_ur ?m = U ''bey''"
    "option_c_en ?m = U ''gamma''" "option_c_ur ?m = U ''jim''"
    "option_d_en ?m = U ''delta''" "option_d_ur ?m = U ''dal''"
    "correct_option ?m = U ''A''"
    by simp_all
  with h l k show ?thesis by (intro conjI)
qed

subsection \<open>The no-break space\<close>


















end
